theory Spec2Isabelle
  imports Main "HOL-Library.AList" "HOL-Library.List_Lexorder" "HOL-Library.Char_ord"
begin

section \<open>The metadata store\<close>

text \<open>
  The store is the JSON object kept in \<^verbatim>\<open>metadata.json\<close>. Python dictionaries keep
  their insertion order and the code iterates over them, so every dictionary is an
  association list here; \<open>map_of\<close> is the lookup \<^verbatim>\<open>d[k]\<close> and \<open>AList.update\<close> the
  assignment \<^verbatim>\<open>d[k] = v\<close> (in place for a present key, appended for a new one).
  The settings blob is opaque to this part of the program and is the type parameter
  \<open>'s\<close>. Strings are compared as Python compares them, character by character.

  The records are typed, so the \<^verbatim>\<open>isinstance\<close> and required-field tests of the
  validator cannot fail on them; \<open>current_count\<close> alone is optional, as the code reads it
  with \<^verbatim>\<open>.get("current_count", 0)\<close>.
\<close>

record product_info =
  name :: string
  prevent_duplicates :: bool
  min_occurrences :: int
  current_count :: "int option"

record 's image_data =
  content_type :: string
  dimensions :: "int \<times> int"
  product :: "string option"
  settings_source :: string
  img_settings :: "'s option"

text \<open>
  One entry of \<^verbatim>\<open>structure\<close>: the folder of a content type and the image names listed
  for it. A path is the list of its components, \<^verbatim>\<open>Path.parent\<close> drops the last one
  and \<^verbatim>\<open>path / name\<close> appends one.
\<close>

record folder =
  path :: "string list"
  folder_images :: "string list"

record 's metadata =
  keys :: "string list"
  content_types :: "string list"
  products :: "(string \<times> product_info list) list"
  struct :: "(string \<times> folder) list"
  images :: "(string \<times> 's image_data) list"
  untagged :: "string list"
  settings :: "(string \<times> (string \<times> 's option) list) list"

text \<open>Every \<^verbatim>\<open>raise\<close> of the modelled code, and the exceptions of its lookups.\<close>

datatype error =
    ImageNotFound string
  | InvalidProduct string string
  | KeyError string
  | KeyErrorIndex nat
  | IndexError
  | ContentTypeRequired
  | ContentTypeNotAllowed
  | NotImplementedError
  | NotUntagged string
  | InvalidContentType string
  | SourceNotFound "string list"
  | DestinationExists "string list"
  | OSError
  | ImageOpenError
  | FailedToMove error
  | NoAvailableImages string string
  | TemplateError
  | NoCustomSettings string
  | NoContentSettings string
  | NoProductSettings string string
  | InvalidSettingsSource string
  | FailedToGetSettings string error
  | RenderError

text \<open>Python's truth value of an optional string: \<^verbatim>\<open>None\<close> and \<^verbatim>\<open>""\<close> are false.\<close>

fun truthy :: "string option \<Rightarrow> bool" where
  "truthy None = False"
| "truthy (Some s) = (s \<noteq> [])"

section \<open>MetadataEditor\<close>

text \<open>
  \<^verbatim>\<open>_update_product_count\<close>: the first product of the content type with the given name
  gets its count raised or lowered by one (a missing count starts at 0); no product of
  that name changes nothing; a content type missing from \<^verbatim>\<open>products\<close> is a KeyError.
\<close>

fun bump_count :: "string \<Rightarrow> bool \<Rightarrow> product_info list \<Rightarrow> product_info list" where
  "bump_count pn inc [] = []"
| "bump_count pn inc (p # ps) =
     (if name p = pn
      then p\<lparr>current_count :=
             Some ((case current_count p of None \<Rightarrow> 0 | Some c \<Rightarrow> c) + (if inc then 1 else - 1))\<rparr> # ps
      else p # bump_count pn inc ps)"

definition update_product_count ::
  "'s metadata \<Rightarrow> string \<Rightarrow> string \<Rightarrow> bool \<Rightarrow> error + 's metadata" where
  "update_product_count md ct pn inc =
     (case map_of (products md) ct of
        None \<Rightarrow> Inl (KeyError ct)
      | Some ps \<Rightarrow> Inr (md\<lparr>products := AList.update ct (bump_count pn inc ps) (products md)\<rparr>))"

text \<open>
  The argument \<^verbatim>\<open>data\<close> of \<^verbatim>\<open>edit_image\<close> is a partial image record: each field is
  absent (\<open>None\<close>) or carries the new value, which for \<^verbatim>\<open>product\<close> and
  \<^verbatim>\<open>settings\<close> may itself be \<^verbatim>\<open>None\<close>.
\<close>

record 's image_patch =
  new_content_type :: "string option"
  new_dimensions :: "(int \<times> int) option"
  new_product :: "string option option"
  new_settings_source :: "string option"
  new_settings :: "'s option option"

definition apply_patch :: "'s image_patch \<Rightarrow> 's image_data \<Rightarrow> 's image_data" where
  "apply_patch d img =
     \<lparr> content_type = (case new_content_type d of None \<Rightarrow> content_type img | Some v \<Rightarrow> v),
       dimensions = (case new_dimensions d of None \<Rightarrow> dimensions img | Some v \<Rightarrow> v),
       product = (case new_product d of None \<Rightarrow> product img | Some v \<Rightarrow> v),
       settings_source = (case new_settings_source d of None \<Rightarrow> settings_source img | Some v \<Rightarrow> v),
       img_settings = (case new_settings d of None \<Rightarrow> img_settings img | Some v \<Rightarrow> v) \<rparr>"

definition count_step ::
  "'s metadata \<Rightarrow> string \<Rightarrow> string option \<Rightarrow> bool \<Rightarrow> error + 's metadata" where
  "count_step md ct p inc =
     (if truthy p then update_product_count md ct (the p) inc else Inr md)"

definition edit_image :: "'s metadata \<Rightarrow> string \<Rightarrow> 's image_patch \<Rightarrow> error + 's metadata" where
  "edit_image md image_name d =
     (case map_of (images md) image_name of
        None \<Rightarrow> Inl (ImageNotFound image_name)
      | Some im \<Rightarrow>
          (case new_product d of
             None \<Rightarrow> Inr (md\<lparr>images := AList.update image_name (apply_patch d im) (images md)\<rparr>)
           | Some newp \<Rightarrow>
               (case count_step md (content_type im) (product im) False of
                  Inl e \<Rightarrow> Inl e
                | Inr md1 \<Rightarrow>
                    (case count_step md1 (content_type im) newp True of
                       Inl e \<Rightarrow> Inl e
                     | Inr md2 \<Rightarrow>
                         Inr (md2\<lparr>untagged :=
                                  (if newp = None
                                   then (if image_name \<in> set (untagged md2) then untagged md2
                                         else untagged md2 @ [image_name])
                                   else filter (\<lambda>img. img \<noteq> image_name) (untagged md2)),
                                images := AList.update image_name (apply_patch d im) (images md2)\<rparr>)))))"

text \<open>
  \<^verbatim>\<open>update_image_product\<close>: the product is checked against the products of the content
  type stored for the image; the two count updates are made with the content type the
  caller passed.
\<close>

definition update_image_product ::
  "'s metadata \<Rightarrow> string \<Rightarrow> string \<Rightarrow> string \<Rightarrow> error + 's metadata" where
  "update_image_product md image_name ct newp =
     (case map_of (images md) image_name of
        None \<Rightarrow> Inl (ImageNotFound image_name)
      | Some im \<Rightarrow>
          (case map_of (products md) (content_type im) of
             None \<Rightarrow> Inl (KeyError (content_type im))
           | Some ps \<Rightarrow>
               if newp \<notin> set (map name ps) then Inl (InvalidProduct newp (content_type im))
               else
                 (case count_step md ct (product im) False of
                    Inl e \<Rightarrow> Inl e
                  | Inr md1 \<Rightarrow>
                      (case update_product_count md1 ct newp True of
                         Inl e \<Rightarrow> Inl e
                       | Inr md2 \<Rightarrow>
                           Inr (md2\<lparr>images :=
                                  AList.update image_name (im\<lparr>product := Some newp\<rparr>) (images md2)\<rparr>)))))"

text \<open>
  \<^verbatim>\<open>edit_settings\<close>. The level is the string the caller passes. At the product level
  the body is a comment describing the intended regrouping followed by
  \<^verbatim>\<open>raise NotImplementedError\<close>; a level that is none of the three falls through all
  branches and changes nothing.
\<close>

definition edit_settings ::
  "'s metadata \<Rightarrow> string \<Rightarrow> string \<Rightarrow> 's option \<Rightarrow> string option \<Rightarrow> error + 's metadata" where
  "edit_settings md level target d ct =
     (if level = ''product'' \<and> \<not> truthy ct then Inl ContentTypeRequired
      else if level \<noteq> ''product'' \<and> truthy ct then Inl ContentTypeNotAllowed
      else if level = ''content_type'' then
        (let cur = (case map_of (settings md) target of None \<Rightarrow> [] | Some g \<Rightarrow> g)
         in Inr (md\<lparr>settings := AList.update target (AList.update ''content'' d cur) (settings md)\<rparr>))
      else if level = ''product'' then Inl NotImplementedError
      else if level = ''custom'' then
        (case map_of (images md) target of
           None \<Rightarrow> Inl (ImageNotFound target)
         | Some im \<Rightarrow>
             Inr (md\<lparr>images :=
                    AList.update target (im\<lparr>settings_source := ''custom'', img_settings := d\<rparr>) (images md)\<rparr>))
      else Inr md)"

text \<open>
  The group keys of one content type's settings are strings such as \<^verbatim>\<open>[p1, p2]\<close>.
  \<open>split_on\<close> is \<^verbatim>\<open>str.split\<close> with a one-character separator, \<open>strip\<close> is
  \<^verbatim>\<open>str.strip()\<close> and \<open>slice_inner\<close> is \<^verbatim>\<open>key[1:-1]\<close>.
\<close>

fun split_on :: "char \<Rightarrow> string \<Rightarrow> string list" where
  "split_on c [] = [[]]"
| "split_on c (x # xs) =
     (if x = c then [] # split_on c xs
      else (case split_on c xs of [] \<Rightarrow> [[x]] | w # ws \<Rightarrow> (x # w) # ws))"

definition is_space :: "char \<Rightarrow> bool" where
  "is_space c = (of_char c \<in> {9, 10, 11, 12, 13, 28, 29, 30, 31, 32, 133, 160 :: nat})"

definition strip :: "string \<Rightarrow> string" where
  "strip s = rev (dropWhile is_space (rev (dropWhile is_space s)))"

definition slice_inner :: "string \<Rightarrow> string" where
  "slice_inner s = butlast (drop 1 s)"

definition group_products :: "string \<Rightarrow> string list" where
  "group_products g = map strip (split_on CHR '','' (slice_inner g))"

section \<open>Moving an untagged image\<close>

text \<open>
  The file system maps a path to what is stored there. Whether the rename and the final
  write of \<^verbatim>\<open>metadata.json\<close> succeed is decided outside the program and is an input.
  The result is the exception raised (if any) with the store and the file system as the
  call leaves them, since the code mutates both in place before it can fail. The final
  write opens \<^verbatim>\<open>metadata.json\<close> in mode \<^verbatim>\<open>"w"\<close> and then dumps the store: when
  the file cannot be opened it stays as it was, and when the dump fails after the file
  was opened (and so emptied) what is left is a partial file.
\<close>

datatype 's fobj = ImageFile int int | OtherFile | PartialFile | MetadataFile "'s metadata"

record io_outcome =
  rename_ok :: bool
  open_ok :: bool
  dump_ok :: bool

definition move_untagged_image ::
  "io_outcome \<Rightarrow> (string list \<Rightarrow> 's fobj option) \<Rightarrow> 's metadata \<Rightarrow> string \<Rightarrow> string
     \<Rightarrow> error option \<times> 's metadata \<times> (string list \<Rightarrow> 's fobj option)" where
  "move_untagged_image io fs md image_name target =
     (if image_name \<notin> set (untagged md) then (Some (FailedToMove (NotUntagged image_name)), md, fs)
      else if target \<notin> set (content_types md) then (Some (FailedToMove (InvalidContentType target)), md, fs)
      else
        (case map_of (struct md) target of
           None \<Rightarrow> (Some (FailedToMove (KeyError target)), md, fs)
         | Some st \<Rightarrow>
             (let target_path = path st;
                  base_path = butlast target_path;
                  src_path = base_path @ [image_name];
                  dest_path = target_path @ [image_name]
              in if fs src_path = None then (Some (FailedToMove (SourceNotFound src_path)), md, fs)
                 else if fs dest_path \<noteq> None then (Some (FailedToMove (DestinationExists dest_path)), md, fs)
                 else if \<not> rename_ok io then (Some (FailedToMove OSError), md, fs)
                 else
                   (let fs1 = fs(dest_path := fs src_path, src_path := None);
                        md1 = md\<lparr>struct :=
                                AList.update target (st\<lparr>folder_images := sort (folder_images st @ [image_name])\<rparr>)
                                  (struct md)\<rparr>
                    in (case fs1 dest_path of
                          Some (ImageFile w h) \<Rightarrow>
                            (let md2 = md1\<lparr>images :=
                                   sort_key fst
                                     (AList.update image_name
                                        \<lparr> content_type = target, dimensions = (w, h), product = None,
                                          settings_source = ''default'', img_settings = None \<rparr>
                                        (images md1))\<rparr>;
                                 md3 = md2\<lparr>untagged := sort (remove1 image_name (untagged md2))\<rparr>
                             in if \<not> open_ok io then (Some (FailedToMove OSError), md3, fs1)
                                else if \<not> dump_ok io
                                then (Some (FailedToMove OSError), md3,
                                      fs1(base_path @ [''metadata.json''] := Some PartialFile))
                                else (None, md3, fs1(base_path @ [''metadata.json''] := Some (MetadataFile md3))))
                        | _ \<Rightarrow> (Some (FailedToMove ImageOpenError), md1, fs1))))))"

section \<open>Generator\<close>

text \<open>
  The generator reads the store and never changes it. \<^verbatim>\<open>used_images\<close> is the
  dictionary of one post: content type, then product name, then the list of images
  already chosen. It is built from the store at the start of every post.
\<close>

type_synonym used_images = "(string \<times> (string \<times> string list) list) list"

fun init_used_for ::
  "(string \<times> product_info list) list \<Rightarrow> string list \<Rightarrow> error + used_images" where
  "init_used_for prods [] = Inr []"
| "init_used_for prods (ct # cts) =
     (case map_of prods ct of
        None \<Rightarrow> Inl (KeyError ct)
      | Some ps \<Rightarrow>
          (case init_used_for prods cts of
             Inl e \<Rightarrow> Inl e
           | Inr u \<Rightarrow> Inr ((ct, map (\<lambda>q. (name q, [])) ps) # u)))"

definition init_used :: "'s metadata \<Rightarrow> error + used_images" where
  "init_used md = init_used_for (products md) (content_types md)"

text \<open>\<^verbatim>\<open>used_images[content_type][product]\<close>, and appending to that list.\<close>

definition used_list :: "used_images \<Rightarrow> string \<Rightarrow> string \<Rightarrow> error + string list" where
  "used_list used ct p =
     (case map_of used ct of
        None \<Rightarrow> Inl (KeyError ct)
      | Some m \<Rightarrow> (case map_of m p of None \<Rightarrow> Inl (KeyError p) | Some u \<Rightarrow> Inr u))"

definition record_used :: "used_images \<Rightarrow> string \<Rightarrow> string \<Rightarrow> string \<Rightarrow> error + used_images" where
  "record_used used ct p img =
     (case map_of used ct of
        None \<Rightarrow> Inl (KeyError ct)
      | Some m \<Rightarrow>
          (case map_of m p of
             None \<Rightarrow> Inl (KeyError p)
           | Some u \<Rightarrow> Inr (AList.update ct (AList.update p (u @ [img]) m) used)))"

text \<open>
  \<^verbatim>\<open>_should_prevent_duplicates\<close>: the flag of the first product of the content type
  whose name is the stripped product, \<^verbatim>\<open>False\<close> when there is none.
\<close>

definition should_prevent_duplicates :: "'s metadata \<Rightarrow> string \<Rightarrow> string \<Rightarrow> error + bool" where
  "should_prevent_duplicates md ct p =
     (case map_of (products md) ct of
        None \<Rightarrow> Inl (KeyError ct)
      | Some ps \<Rightarrow>
          Inr (case find (\<lambda>q. name q = strip p) ps of
                 None \<Rightarrow> False
               | Some q \<Rightarrow> prevent_duplicates q))"

text \<open>
  The comprehension \<^verbatim>\<open>[img for img in all_images if images[img]["product"] == p]\<close>:
  a listed image without a record raises KeyError at the first such image.
\<close>

fun matching_images :: "'s metadata \<Rightarrow> string list \<Rightarrow> string \<Rightarrow> error + string list" where
  "matching_images md [] p = Inr []"
| "matching_images md (i # rest) p =
     (case map_of (images md) i of
        None \<Rightarrow> Inl (KeyError i)
      | Some im \<Rightarrow>
          (case matching_images md rest p of
             Inl e \<Rightarrow> Inl e
           | Inr r \<Rightarrow> Inr (if product im = Some p then i # r else r)))"

text \<open>
  Removing the images already used. In the wildcard branch the used list is looked up
  inside the comprehension, once per candidate, so an empty candidate list never raises.
\<close>

definition without_used ::
  "used_images \<Rightarrow> string \<Rightarrow> string \<Rightarrow> string list \<Rightarrow> error + string list" where
  "without_used used ct p imgs =
     (if imgs = [] then Inr []
      else (case used_list used ct p of
              Inl e \<Rightarrow> Inl e
            | Inr u \<Rightarrow> Inr (filter (\<lambda>img. img \<notin> set u) imgs)))"

fun all_pool ::
  "'s metadata \<Rightarrow> string \<Rightarrow> used_images \<Rightarrow> bool \<Rightarrow> string list \<Rightarrow> product_info list
     \<Rightarrow> error + string list" where
  "all_pool md ct used allow all_images [] = Inr []"
| "all_pool md ct used allow all_images (q # qs) =
     (if prevent_duplicates q \<and> \<not> allow then all_pool md ct used allow all_images qs
      else
        (case matching_images md all_images (name q) of
           Inl e \<Rightarrow> Inl e
         | Inr m \<Rightarrow>
             (case (if prevent_duplicates q then without_used used ct (name q) m else Inr m) of
                Inl e \<Rightarrow> Inl e
              | Inr m' \<Rightarrow>
                  (case all_pool md ct used allow all_images qs of
                     Inl e \<Rightarrow> Inl e
                   | Inr r \<Rightarrow> Inr (m' @ r)))))"

text \<open>
  \<^verbatim>\<open>_get_available_images\<close>. In the branch of a concrete product the used list is
  also read by the debug message before the comprehension, so there it is looked up
  even when no image matches.
\<close>

definition get_available_images ::
  "'s metadata \<Rightarrow> string \<Rightarrow> string \<Rightarrow> used_images \<Rightarrow> bool \<Rightarrow> error + string list" where
  "get_available_images md ct product0 used allow =
     (let p = strip product0 in
      case map_of (struct md) ct of
        None \<Rightarrow> Inl (KeyError ct)
      | Some st \<Rightarrow>
          if p = ''all'' then
            (case map_of (products md) ct of
               None \<Rightarrow> Inl (KeyError ct)
             | Some ps \<Rightarrow> all_pool md ct used allow (folder_images st) ps)
          else
            (case matching_images md (folder_images st) p of
               Inl e \<Rightarrow> Inl e
             | Inr available \<Rightarrow>
                 (case should_prevent_duplicates md ct p of
                    Inl e \<Rightarrow> Inl e
                  | Inr True \<Rightarrow>
                      (case used_list used ct p of
                         Inl e \<Rightarrow> Inl e
                       | Inr u \<Rightarrow> Inr (filter (\<lambda>img. img \<notin> set u) available))
                  | Inr False \<Rightarrow> Inr available)))"

text \<open>
  \<^verbatim>\<open>_get_image_settings\<close>. \<open>path_name\<close> is \<^verbatim>\<open>Path(image_path).name\<close> on a POSIX
  path. The default template is a file read at run time: \<open>tmpl\<close> is its content, or
  \<open>None\<close> when it cannot be read. Every exception of the body is caught and raised
  again as the ValueError \<open>FailedToGetSettings\<close>.
\<close>

definition path_name :: "string \<Rightarrow> string" where
  "path_name s =
     (case filter (\<lambda>c. c \<noteq> [] \<and> c \<noteq> ''.'') (split_on CHR ''/'' s) of
        [] \<Rightarrow> []
      | c # cs \<Rightarrow> last (c # cs))"

fun find_product_settings :: "string \<Rightarrow> (string \<times> 's option) list \<Rightarrow> 's option" where
  "find_product_settings p [] = None"
| "find_product_settings p ((g, s) # rest) =
     (if g \<noteq> ''content'' \<and> p \<in> set (group_products g) \<and> s \<noteq> None then s
      else find_product_settings p rest)"

definition resolve_settings ::
  "'s option \<Rightarrow> 's metadata \<Rightarrow> string \<Rightarrow> string \<Rightarrow> string \<Rightarrow> error + 's" where
  "resolve_settings tmpl md ct p image_name =
     (case map_of (images md) image_name of
        None \<Rightarrow> Inl (KeyError image_name)
      | Some im \<Rightarrow>
          if settings_source im = ''default'' then
            (case tmpl of None \<Rightarrow> Inl TemplateError | Some s \<Rightarrow> Inr s)
          else if settings_source im = ''custom'' then
            (case img_settings im of None \<Rightarrow> Inl (NoCustomSettings image_name) | Some s \<Rightarrow> Inr s)
          else if settings_source im = ''content'' then
            (case map_of (settings md) ct of
               None \<Rightarrow> Inl (KeyError ct)
             | Some g \<Rightarrow>
                 (case map_of g ''content'' of
                    None \<Rightarrow> Inl (KeyError ''content'')
                  | Some None \<Rightarrow> Inl (NoContentSettings ct)
                  | Some (Some s) \<Rightarrow> Inr s))
          else if settings_source im = ''product'' then
            (case map_of (settings md) ct of
               None \<Rightarrow> Inl (KeyError ct)
             | Some g \<Rightarrow>
                 (case find_product_settings p g of
                    None \<Rightarrow> Inl (NoProductSettings p ct)
                  | Some s \<Rightarrow> Inr s))
          else Inl (InvalidSettingsSource (settings_source im)))"

definition get_image_settings ::
  "'s option \<Rightarrow> 's metadata \<Rightarrow> string \<Rightarrow> string \<Rightarrow> string \<Rightarrow> error + 's" where
  "get_image_settings tmpl md ct p image_path =
     (case resolve_settings tmpl md ct p (path_name image_path) of
        Inl e \<Rightarrow> Inl (FailedToGetSettings (path_name image_path) e)
      | Inr s \<Rightarrow> Inr s)"

text \<open>
  \<^verbatim>\<open>_generate_single_image\<close>. \<^verbatim>\<open>random.choice\<close> picks the element at an index
  drawn at random: \<open>r\<close> is the draw. Drawing the text onto the image and saving it is
  the work of the renderer, outside this model: \<open>render\<close> tells whether it succeeds for
  the resolved settings, the image and the text. The result is what was rendered and
  the used-image table after the slot.
\<close>

definition generate_single_image ::
  "('s \<Rightarrow> string \<Rightarrow> string \<Rightarrow> bool) \<Rightarrow> 's option \<Rightarrow> 's metadata \<Rightarrow> nat
     \<Rightarrow> string \<Rightarrow> string \<Rightarrow> string \<Rightarrow> used_images \<Rightarrow> bool
     \<Rightarrow> error + ((string \<times> 's \<times> string) \<times> used_images)" where
  "generate_single_image render tmpl md r ct p txt used allow =
     (case get_available_images md ct p used allow of
        Inl e \<Rightarrow> Inl e
      | Inr available \<Rightarrow>
          if available = [] then Inl (NoAvailableImages ct p)
          else
            (let selected = available ! (r mod length available) in
             case should_prevent_duplicates md ct p of
               Inl e \<Rightarrow> Inl e
             | Inr sp \<Rightarrow>
                 (case (if sp then record_used used ct p selected else Inr used) of
                    Inl e \<Rightarrow> Inl e
                  | Inr used' \<Rightarrow>
                      (case get_image_settings tmpl md ct p selected of
                         Inl e \<Rightarrow> Inl e
                       | Inr s \<Rightarrow>
                           if render s selected txt then Inr ((selected, s, txt), used')
                           else Inl RenderError))))"

text \<open>
  \<^verbatim>\<open>generate\<close>. The header of the captions table comes in pairs
  \<^verbatim>\<open>product_<type>, <type>\<close>; \<open>headers_map\<close> is the list of the content types of
  the pairs, the entry for index \<open>i\<close> (from 1) at position \<open>i - 1\<close>. A row is cut into
  (product, text) pairs; a slot with empty text is skipped. The random draws are the
  values of \<open>rnd\<close> at a counter that advances with every selection.
\<close>

fun headers_upto :: "string list \<Rightarrow> nat \<Rightarrow> error + string list" where
  "headers_upto hs 0 = Inr []"
| "headers_upto hs (Suc n) =
     (case headers_upto hs n of
        Inl e \<Rightarrow> Inl e
      | Inr m \<Rightarrow>
          (case split_on CHR ''_'' (hs ! (2 * n)) of
             a # b # rest \<Rightarrow> Inr (m @ [b])
           | _ \<Rightarrow> Inl IndexError))"

definition headers_map :: "string list \<Rightarrow> error + string list" where
  "headers_map hs = headers_upto hs (length hs div 2)"

fun slot_pairs :: "string list \<Rightarrow> (string \<times> string) list" where
  "slot_pairs (p # c # rest) = (p, c) # slot_pairs rest"
| "slot_pairs _ = []"

fun process_slots ::
  "('s \<Rightarrow> string \<Rightarrow> string \<Rightarrow> bool) \<Rightarrow> 's option \<Rightarrow> 's metadata \<Rightarrow> bool \<Rightarrow> (nat \<Rightarrow> nat)
     \<Rightarrow> string list \<Rightarrow> nat \<Rightarrow> used_images \<Rightarrow> nat \<Rightarrow> (string \<times> string) list
     \<Rightarrow> error + ((string \<times> 's \<times> string) list \<times> nat)" where
  "process_slots render tmpl md allow rnd hm idx used k [] = Inr ([], k)"
| "process_slots render tmpl md allow rnd hm idx used k ((p, txt) # rest) =
     (if length hm < idx then Inl (KeyErrorIndex idx)
      else if txt = [] then process_slots render tmpl md allow rnd hm (Suc idx) used k rest
      else
        (case generate_single_image render tmpl md (rnd k) (hm ! (idx - 1)) p txt used allow of
           Inl e \<Rightarrow> Inl e
         | Inr (out, used') \<Rightarrow>
             (case process_slots render tmpl md allow rnd hm (Suc idx) used' (Suc k) rest of
                Inl e \<Rightarrow> Inl e
              | Inr (outs, k') \<Rightarrow> Inr (out # outs, k'))))"

fun process_posts ::
  "('s \<Rightarrow> string \<Rightarrow> string \<Rightarrow> bool) \<Rightarrow> 's option \<Rightarrow> 's metadata \<Rightarrow> bool \<Rightarrow> (nat \<Rightarrow> nat)
     \<Rightarrow> string list \<Rightarrow> nat \<Rightarrow> string list list
     \<Rightarrow> error + ((string \<times> 's \<times> string) list list \<times> nat)" where
  "process_posts render tmpl md allow rnd hm k [] = Inr ([], k)"
| "process_posts render tmpl md allow rnd hm k (row # rows) =
     (case init_used md of
        Inl e \<Rightarrow> Inl e
      | Inr used \<Rightarrow>
          (case process_slots render tmpl md allow rnd hm 1 used k (slot_pairs row) of
             Inl e \<Rightarrow> Inl e
           | Inr (outs, k1) \<Rightarrow>
               (case process_posts render tmpl md allow rnd hm k1 rows of
                  Inl e \<Rightarrow> Inl e
                | Inr (posts, k2) \<Rightarrow> Inr (outs # posts, k2))))"

fun process_variations ::
  "('s \<Rightarrow> string \<Rightarrow> string \<Rightarrow> bool) \<Rightarrow> 's option \<Rightarrow> 's metadata \<Rightarrow> bool \<Rightarrow> (nat \<Rightarrow> nat)
     \<Rightarrow> string list \<Rightarrow> string list list \<Rightarrow> nat \<Rightarrow> nat
     \<Rightarrow> error + ((string \<times> 's \<times> string) list list list \<times> nat)" where
  "process_variations render tmpl md allow rnd hm rows 0 k = Inr ([], k)"
| "process_variations render tmpl md allow rnd hm rows (Suc n) k =
     (case process_posts render tmpl md allow rnd hm k rows of
        Inl e \<Rightarrow> Inl e
      | Inr (posts, k1) \<Rightarrow>
          (case process_variations render tmpl md allow rnd hm rows n k1 of
             Inl e \<Rightarrow> Inl e
           | Inr (vs, k2) \<Rightarrow> Inr (posts # vs, k2)))"

text \<open>
  The captions are the header row and the rows of the table, one row per post. The
  result of \<open>generate\<close> lists, for every variation and every post, the slots rendered
  in order. Creating the output folders is left out.
\<close>

record captions =
  headers :: "string list"
  caption_rows :: "string list list"

definition generate ::
  "('s \<Rightarrow> string \<Rightarrow> string \<Rightarrow> bool) \<Rightarrow> 's option \<Rightarrow> 's metadata \<Rightarrow> captions \<Rightarrow> (nat \<Rightarrow> nat)
     \<Rightarrow> nat \<Rightarrow> bool \<Rightarrow> error + (string \<times> 's \<times> string) list list list" where
  "generate render tmpl md caps rnd variations allow =
     (case headers_map (headers caps) of
        Inl e \<Rightarrow> Inl e
      | Inr hm \<Rightarrow>
          (case process_variations render tmpl md allow rnd hm (caption_rows caps) variations 0 of
             Inl e \<Rightarrow> Inl e
           | Inr (vs, k) \<Rightarrow> Inr vs))"

section \<open>MetadataValidator\<close>

text \<open>
  A message is kept as the values filled into one of the source's format strings, under
  a label that names the format string. The code compares the text of a message in one
  place only: a warning recorded without an explicit key has its own text as its key.
  For the seven warnings recorded that way the pieces therefore spell the whole text,
  literal parts (\<open>T\<close>) included, and \<open>text_of\<close> is the string Python builds: a string
  value as it is, an integer in decimal, and the sorted names of the untagged-images
  warning joined by a comma and a blank. The other messages carry their values only.
\<close>

datatype arg = T string | S string | I int | L "string list"

datatype msg = Msg string "arg list"

fun show_nat :: "nat \<Rightarrow> string" where
  "show_nat n =
     (if n < 10 then [char_of (48 + n)] else show_nat (n div 10) @ [char_of (48 + n mod 10)])"

definition show_int :: "int \<Rightarrow> string" where
  "show_int i = (if i < 0 then CHR ''-'' # show_nat (nat (- i)) else show_nat (nat i))"

fun join :: "string \<Rightarrow> string list \<Rightarrow> string" where
  "join sep [] = []"
| "join sep [x] = x"
| "join sep (x # y # ys) = x @ sep @ join sep (y # ys)"

fun piece_text :: "arg \<Rightarrow> string" where
  "piece_text (T s) = s"
| "piece_text (S s) = s"
| "piece_text (I i) = show_int i"
| "piece_text (L xs) = join '', '' xs"

fun text_of :: "msg \<Rightarrow> string" where
  "text_of (Msg label pieces) = concat (map piece_text pieces)"

text \<open>
  The validator keeps the list of errors, the list of warnings and the set of warning
  keys already seen. \<^verbatim>\<open>add_warning\<close>: the key is the explicit key when one is given and
  the text of the message otherwise; both kinds of key are strings in one set.
\<close>

record vstate =
  errors :: "msg list"
  warnings :: "msg list"
  seen_warnings :: "string set"

definition add_error :: "vstate \<Rightarrow> msg \<Rightarrow> vstate" where
  "add_error st m = st\<lparr>errors := errors st @ [m]\<rparr>"

definition add_warning :: "vstate \<Rightarrow> msg \<Rightarrow> string option \<Rightarrow> vstate" where
  "add_warning st m k =
     (let warning_key = (case k of None \<Rightarrow> text_of m | Some key \<Rightarrow> key)
      in if warning_key \<notin> seen_warnings st
         then st\<lparr>warnings := warnings st @ [m], seen_warnings := insert warning_key (seen_warnings st)\<rparr>
         else st)"

text \<open>A check that appends an error and returns \<^verbatim>\<open>False\<close>.\<close>

definition fail :: "vstate \<Rightarrow> msg \<Rightarrow> error + bool \<times> vstate" where
  "fail st m = Inr (False, add_error st m)"

text \<open>
  What the validator reads outside the store: whether a path exists, the size of the
  image at a path (\<open>None\<close> when it cannot be opened), the verdict of the settings
  validator on a blob (\<open>None\<close> when it accepts, its error texts otherwise) and whether
  the captions file can be read for the minimum occurrences.
\<close>

record 's env =
  path_exists :: "string list \<Rightarrow> bool"
  image_size :: "string list \<Rightarrow> (int \<times> int) option"
  check_settings :: "'s \<Rightarrow> string list option"
  captions_readable :: bool

definition REQUIRED_KEYS_ORDER :: "string list" where
  "REQUIRED_KEYS_ORDER =
     [''content_types'', ''products'', ''structure'', ''images'', ''untagged'', ''settings'']"

definition validate_content_types ::
  "vstate \<Rightarrow> 's metadata \<Rightarrow> string list \<Rightarrow> error + bool \<times> vstate" where
  "validate_content_types st md expected_types =
     (if set (content_types md) \<noteq> set expected_types
      then fail st (Msg ''Content types mismatch'' [L (content_types md), L expected_types])
      else Inr (True, st))"

text \<open>
  \<^verbatim>\<open>_validate_products\<close>, first part: the products of every content type against the
  expected names.
\<close>

fun check_product_names ::
  "vstate \<Rightarrow> string \<Rightarrow> string list \<Rightarrow> product_info list \<Rightarrow> error + bool \<times> vstate" where
  "check_product_names st ct expected [] = Inr (True, st)"
| "check_product_names st ct expected (q # qs) =
     (if name q \<notin> set expected
      then fail st (Msg ''Invalid product'' [S (name q), S ct, L (sort (remdups expected))])
      else check_product_names st ct expected qs)"

fun check_products ::
  "vstate \<Rightarrow> (string \<times> string list) list \<Rightarrow> (string \<times> product_info list) list
     \<Rightarrow> error + bool \<times> vstate" where
  "check_products st expected [] = Inr (True, st)"
| "check_products st expected ((ct, prods) # rest) =
     (case map_of expected ct of
        None \<Rightarrow> Inl (KeyError ct)
      | Some names \<Rightarrow>
          (case check_product_names st ct names prods of
             Inl e \<Rightarrow> Inl e
           | Inr (False, st') \<Rightarrow> Inr (False, st')
           | Inr (True, st') \<Rightarrow>
               if set names - set (map name prods) \<noteq> {}
               then fail st' (Msg ''Missing products'' [S ct, L (sort (remdups (filter (\<lambda>n. n \<notin> set (map name prods)) names)))])
               else if set (map name prods) - set names \<noteq> {}
               then fail st' (Msg ''Unexpected products'' [S ct])
               else check_products st' expected rest))"

text \<open>
  The tally of the images per content type and product, as the nested dictionary the
  code builds: \<open>tally_add\<close> is \<^verbatim>\<open>product_counts[ct][prod] += 1\<close>, a KeyError when
  the content type has no entry.
\<close>

type_synonym tally = "(string \<times> (string \<times> int) list) list"

definition tally_get :: "(string \<times> int) list \<Rightarrow> string \<Rightarrow> int" where
  "tally_get m p = (case map_of m p of None \<Rightarrow> 0 | Some c \<Rightarrow> c)"

definition tally_add :: "tally \<Rightarrow> string \<Rightarrow> string \<Rightarrow> error + tally" where
  "tally_add pc ct p =
     (case map_of pc ct of
        None \<Rightarrow> Inl (KeyError ct)
      | Some m \<Rightarrow> Inr (AList.update ct (AList.update p (tally_get m p + 1) m) pc))"

definition empty_tally :: "'s metadata \<Rightarrow> tally" where
  "empty_tally md = map (\<lambda>(ct, prods). (ct, [])) (products md)"

text \<open>The list of valid products shown in a warning: \<^verbatim>\<open>all\<close> first, the rest sorted.\<close>

definition order_valid :: "string list \<Rightarrow> string list" where
  "order_valid vs = (if ''all'' \<in> set vs then ''all'' # sort (remove1 ''all'' vs) else sort vs)"

fun products_image_pass ::
  "bool \<Rightarrow> 's metadata \<Rightarrow> tally \<Rightarrow> vstate \<Rightarrow> (string \<times> 's image_data) list
     \<Rightarrow> error + tally \<times> vstate" where
  "products_image_pass strict md pc st [] = Inr (pc, st)"
| "products_image_pass strict md pc st ((n, im) # rest) =
     (if truthy (product im) then
        (case tally_add pc (content_type im) (the (product im)) of
           Inl e \<Rightarrow> Inl e
         | Inr pc' \<Rightarrow> products_image_pass strict md pc' st rest)
      else
        (case map_of (products md) (content_type im) of
           None \<Rightarrow> Inl (KeyError (content_type im))
         | Some ps \<Rightarrow>
             (let m = Msg ''Image has no product assigned'' [S n, L (order_valid (map name ps))]
              in products_image_pass strict md pc
                   (if strict then add_error st m
                    else add_warning st m (Some (''missing_product_'' @ n)))
                   rest)))"

fun check_min_prods ::
  "bool \<Rightarrow> (string \<times> int) list \<Rightarrow> string \<Rightarrow> vstate \<Rightarrow> product_info list \<Rightarrow> bool \<times> vstate" where
  "check_min_prods strict counts ct st [] = (True, st)"
| "check_min_prods strict counts ct st (q # qs) =
     (if prevent_duplicates q \<and> min_occurrences q > 0 \<and> tally_get counts (name q) < min_occurrences q
      then
        (let m = Msg ''Product requires at least''
                   [T ''Product '', T [CHR 0x27], S (name q), T [CHR 0x27], T '' in '', S ct,
                    T '' requires at least '', I (min_occurrences q),
                    T '' images (has '', I (tally_get counts (name q)), T '')'']
         in if strict then (False, add_error st m)
            else check_min_prods strict counts ct (add_warning st m None) qs)
      else check_min_prods strict counts ct st qs)"

fun check_min ::
  "bool \<Rightarrow> tally \<Rightarrow> vstate \<Rightarrow> (string \<times> product_info list) list \<Rightarrow> error + bool \<times> vstate" where
  "check_min strict pc st [] = Inr (True, st)"
| "check_min strict pc st ((ct, prods) # rest) =
     (case map_of pc ct of
        None \<Rightarrow> Inl (KeyError ct)
      | Some counts \<Rightarrow>
          (case check_min_prods strict counts ct st prods of
             (False, st') \<Rightarrow> Inr (False, st')
           | (True, st') \<Rightarrow> check_min strict pc st' rest))"

definition validate_products ::
  "'s env \<Rightarrow> bool \<Rightarrow> vstate \<Rightarrow> 's metadata \<Rightarrow> (string \<times> string list) list
     \<Rightarrow> error + bool \<times> vstate" where
  "validate_products env strict st md expected =
     (if \<not> captions_readable env then Inl OSError
      else if set (map fst (products md)) \<noteq> set (map fst expected)
      then fail st (Msg ''Product content types mismatch'' [L (map fst (products md)), L (map fst expected)])
      else
        (case check_products st expected (products md) of
           Inl e \<Rightarrow> Inl e
         | Inr (False, st1) \<Rightarrow> Inr (False, st1)
         | Inr (True, st1) \<Rightarrow>
             (case products_image_pass strict md (empty_tally md) st1 (images md) of
                Inl e \<Rightarrow> Inl e
              | Inr (pc, st2) \<Rightarrow> check_min strict pc st2 (products md))))"

text \<open>\<^verbatim>\<open>_validate_structure\<close>: every folder exists and holds the images listed for it.\<close>

fun check_folder_images ::
  "'s env \<Rightarrow> vstate \<Rightarrow> string list \<Rightarrow> string list \<Rightarrow> error + bool \<times> vstate" where
  "check_folder_images env st pth [] = Inr (True, st)"
| "check_folder_images env st pth (img # rest) =
     (if \<not> path_exists env (pth @ [img])
      then fail st (Msg ''Image not found in path'' [S img, L pth])
      else check_folder_images env st pth rest)"

fun validate_structure_list ::
  "'s env \<Rightarrow> vstate \<Rightarrow> (string \<times> folder) list \<Rightarrow> error + bool \<times> vstate" where
  "validate_structure_list env st [] = Inr (True, st)"
| "validate_structure_list env st ((ct, info) # rest) =
     (if \<not> path_exists env (path info)
      then fail st (Msg ''Path does not exist'' [L (path info), S ct])
      else
        (case check_folder_images env st (path info) (folder_images info) of
           Inl e \<Rightarrow> Inl e
         | Inr (False, st') \<Rightarrow> Inr (False, st')
         | Inr (True, st') \<Rightarrow> validate_structure_list env st' rest))"

definition validate_structure :: "'s env \<Rightarrow> vstate \<Rightarrow> 's metadata \<Rightarrow> error + bool \<times> vstate" where
  "validate_structure env st md = validate_structure_list env st (struct md)"

text \<open>
  \<^verbatim>\<open>_validate_images\<close>. The test of one image returns \<^verbatim>\<open>False\<close> to stop the
  validation, or \<^verbatim>\<open>True\<close> to go on with the next image. The images are visited in
  sorted order, which at that point is the order of the store.
\<close>

fun first_group_settings :: "string option \<Rightarrow> (string \<times> 's option) list \<Rightarrow> 's option" where
  "first_group_settings p [] = None"
| "first_group_settings p ((g, s) # rest) =
     (if g \<noteq> ''content'' \<and> (case p of None \<Rightarrow> False | Some pn \<Rightarrow> pn \<in> set (group_products g))
      then s
      else first_group_settings p rest)"

definition check_blob ::
  "'s env \<Rightarrow> vstate \<Rightarrow> string \<Rightarrow> string list \<Rightarrow> 's \<Rightarrow> bool \<times> vstate" where
  "check_blob env st what ctx s =
     (case check_settings env s of
        None \<Rightarrow> (True, st)
      | Some errs \<Rightarrow> (False, st\<lparr>errors := errors st @ map (\<lambda>e. Msg what (map S ctx @ [S e])) errs\<rparr>))"

definition validate_image_product ::
  "bool \<Rightarrow> vstate \<Rightarrow> 's metadata \<Rightarrow> string \<Rightarrow> 's image_data \<Rightarrow> error + bool \<times> vstate" where
  "validate_image_product strict st md n im =
     (case product im of
        None \<Rightarrow>
          (case map_of (products md) (content_type im) of
             None \<Rightarrow> Inl (KeyError (content_type im))
           | Some ps \<Rightarrow>
               (let m = Msg ''Image has no product assigned (images)'' [S n, L (map name ps)]
                in if strict then fail st m
                   else Inr (True, add_warning st m (Some (''missing_product_'' @ n)))))
      | Some p \<Rightarrow>
          (case map_of (products md) (content_type im) of
             None \<Rightarrow> Inr (True, st)
           | Some ps \<Rightarrow>
               if p = ''all'' then Inr (True, st)
               else if p \<notin> set (map name ps)
               then fail st (Msg ''Image has invalid product'' [S n, S p, L (sort (''all'' # map name ps))])
               else Inr (True, st)))"

definition validate_image_settings ::
  "'s env \<Rightarrow> bool \<Rightarrow> vstate \<Rightarrow> 's metadata \<Rightarrow> string \<Rightarrow> 's image_data \<Rightarrow> error + bool \<times> vstate" where
  "validate_image_settings env strict st md n im =
     (if settings_source im = ''custom'' then
        (if img_settings im = None then
           (let m = Msg ''custom settings_source but settings are null''
                      [T ''Image '', S n, T '' has custom settings_source but settings are null'']
            in if strict then fail st m else Inr (True, add_warning st m None))
         else Inr (True, st))
      else if settings_source im = ''content'' then
        (case map_of (settings md) (content_type im) of
           None \<Rightarrow> fail st (Msg ''No settings found for content type'' [S (content_type im)])
         | Some g \<Rightarrow>
             (case (case map_of g ''content'' of None \<Rightarrow> None | Some v \<Rightarrow> v) of
                None \<Rightarrow>
                  if strict
                  then fail st (Msg ''uses content-level settings but none defined'' [S n, S (content_type im)])
                  else validate_image_product strict
                         (add_warning st
                            (Msg ''will use default settings as no content-level settings defined''
                               [T ''Image '', S n,
                                T '' will use default settings as no content-level settings defined''])
                            None)
                         md n im
              | Some cs \<Rightarrow>
                  (case check_blob env st ''content settings'' [n] cs of
                     (False, st') \<Rightarrow> Inr (False, st')
                   | (True, st') \<Rightarrow> validate_image_product strict st' md n im)))
      else if settings_source im = ''product'' then
        (case map_of (settings md) (content_type im) of
           None \<Rightarrow> Inl (KeyError (content_type im))
         | Some g \<Rightarrow>
             (case first_group_settings (product im) g of
                None \<Rightarrow>
                  if strict
                  then fail st (Msg ''uses product-level settings but none found'' [S n, L (case product im of None \<Rightarrow> [] | Some p \<Rightarrow> [p])])
                  else validate_image_product strict
                         (add_warning st
                            (Msg ''will use default settings as no product settings found''
                               [T ''Image '', S n,
                                T '' will use default settings as no product settings found''])
                            None)
                         md n im
              | Some ps \<Rightarrow>
                  (case check_blob env st ''product settings'' [n] ps of
                     (False, st') \<Rightarrow> Inr (False, st')
                   | (True, st') \<Rightarrow> validate_image_product strict st' md n im)))
      else if settings_source im = ''default'' then
        (if img_settings im \<noteq> None
         then fail st (Msg ''default settings_source but has non-null settings'' [S n])
         else validate_image_product strict st md n im)
      else validate_image_product strict st md n im)"

definition validate_one_image ::
  "'s env \<Rightarrow> bool \<Rightarrow> vstate \<Rightarrow> 's metadata \<Rightarrow> string \<Rightarrow> 's image_data \<Rightarrow> error + bool \<times> vstate" where
  "validate_one_image env strict st md n im =
     (case map_of (struct md) (content_type im) of
        None \<Rightarrow> fail st (Msg ''Image has invalid content_type'' [S n, S (content_type im)])
      | Some info \<Rightarrow>
          if n \<notin> set (folder_images info)
          then fail st (Msg ''Image claims to be in folder but is not found there'' [S n, S (content_type im)])
          else if path_exists env (path info @ [n]) \<and> image_size env (path info @ [n]) = None
          then fail st (Msg ''Failed to verify dimensions'' [S n])
          else if path_exists env (path info @ [n]) \<and> image_size env (path info @ [n]) \<noteq> Some (dimensions im)
          then fail st (Msg ''Image dimensions mismatch'' [S n, I (fst (dimensions im)), I (snd (dimensions im))])
          else if settings_source im \<notin> set [''default'', ''custom'', ''product'', ''content'']
          then
            (let m = Msg ''Image has invalid settings_source''
                       [T ''Image '', S n, T '' has invalid settings_source: '', S (settings_source im)]
             in if strict then fail st m
                else validate_image_settings env strict (add_warning st m None) md n im)
          else validate_image_settings env strict st md n im)"

fun validate_image_list ::
  "'s env \<Rightarrow> bool \<Rightarrow> vstate \<Rightarrow> 's metadata \<Rightarrow> (string \<times> 's image_data) list
     \<Rightarrow> error + bool \<times> vstate" where
  "validate_image_list env strict st md [] = Inr (True, st)"
| "validate_image_list env strict st md ((n, im) # rest) =
     (case validate_one_image env strict st md n im of
        Inl e \<Rightarrow> Inl e
      | Inr (False, st') \<Rightarrow> Inr (False, st')
      | Inr (True, st') \<Rightarrow> validate_image_list env strict st' md rest)"

definition validate_images :: "'s env \<Rightarrow> bool \<Rightarrow> vstate \<Rightarrow> 's metadata \<Rightarrow> error + bool \<times> vstate" where
  "validate_images env strict st md =
     (if map fst (images md) \<noteq> sort (map fst (images md))
      then fail st (Msg ''Images must be sorted alphabetically'' [])
      else validate_image_list env strict st md (images md))"

text \<open>
  \<^verbatim>\<open>_validate_untagged\<close>. The base folder is the parent of the folder of the first
  content type: an IndexError when there is no content type, a KeyError when it has no
  entry in \<^verbatim>\<open>structure\<close>.
\<close>

fun check_untagged_exist ::
  "'s env \<Rightarrow> vstate \<Rightarrow> string list \<Rightarrow> string list \<Rightarrow> error + bool \<times> vstate" where
  "check_untagged_exist env st base [] = Inr (True, st)"
| "check_untagged_exist env st base (img # rest) =
     (if \<not> path_exists env (base @ [img])
      then fail st (Msg ''Untagged image not found in base folder'' [S img])
      else check_untagged_exist env st base rest)"

definition validate_untagged :: "'s env \<Rightarrow> bool \<Rightarrow> vstate \<Rightarrow> 's metadata \<Rightarrow> error + bool \<times> vstate" where
  "validate_untagged env strict st md =
     (if length (untagged md) \<noteq> card (set (untagged md))
      then fail st (Msg ''Duplicate entries found in untagged list'' [])
      else
        (case content_types md of
           [] \<Rightarrow> Inl IndexError
         | ct0 # cts \<Rightarrow>
             (case map_of (struct md) ct0 of
                None \<Rightarrow> Inl (KeyError ct0)
              | Some info \<Rightarrow>
                  (case check_untagged_exist env st (butlast (path info)) (untagged md) of
                     Inl e \<Rightarrow> Inl e
                   | Inr (False, st') \<Rightarrow> Inr (False, st')
                   | Inr (True, st') \<Rightarrow>
                       if strict \<and> untagged md \<noteq> []
                       then fail st' (Msg ''Strict mode: Untagged images not allowed'' [L (sort (untagged md))])
                       else if untagged md \<noteq> []
                       then Inr (True, add_warning st'
                                        (Msg ''Found untagged images''
                                           [T ''Found '', I (int (length (untagged md))),
                                            T '' untagged images: '', L (sort (untagged md))])
                                        None)
                       else Inr (True, st')))))"

text \<open>
  \<^verbatim>\<open>_validate_settings\<close>. \<open>seen\<close> is the set of the products of the groups already
  visited in the content type.
\<close>

definition bracketed :: "string \<Rightarrow> bool" where
  "bracketed k = (k \<noteq> [] \<and> hd k = CHR ''['' \<and> last k = CHR '']'')"

fun check_groups ::
  "'s env \<Rightarrow> vstate \<Rightarrow> 's metadata \<Rightarrow> string \<Rightarrow> string set \<Rightarrow> (string \<times> 's option) list
     \<Rightarrow> bool \<times> vstate" where
  "check_groups env st md ct seen [] = (True, st)"
| "check_groups env st md ct seen ((k, v) # rest) =
     (if k = ''content'' then check_groups env st md ct seen rest
      else if \<not> bracketed k then (False, add_error st (Msg ''Invalid product group format'' [S ct, S k]))
      else if seen \<inter> set (group_products k) \<noteq> {}
      then (False, add_error st (Msg ''Duplicate products in settings'' [S ct, L (filter (\<lambda>p. p \<in> seen) (group_products k))]))
      else if (case map_of (products md) ct of
                 None \<Rightarrow> False
               | Some ps \<Rightarrow> set (group_products k) - set (map name ps) - {''all''} \<noteq> {})
      then (False, add_error st (Msg ''Invalid products in settings'' [S ct, S k]))
      else
        (case v of
           None \<Rightarrow> check_groups env st md ct (seen \<union> set (group_products k)) rest
         | Some s \<Rightarrow>
             (case check_blob env st ''group settings'' [ct, k] s of
                (False, st') \<Rightarrow> (False, st')
              | (True, st') \<Rightarrow> check_groups env st' md ct (seen \<union> set (group_products k)) rest)))"

fun validate_settings_list ::
  "'s env \<Rightarrow> vstate \<Rightarrow> 's metadata \<Rightarrow> (string \<times> (string \<times> 's option) list) list
     \<Rightarrow> bool \<times> vstate" where
  "validate_settings_list env st md [] = (True, st)"
| "validate_settings_list env st md ((ct, g) # rest) =
     (if ct \<notin> set (content_types md)
      then (False, add_error st (Msg ''Settings defined for invalid content type'' [S ct]))
      else
        (case map_of g ''content'' of
           None \<Rightarrow> (False, add_error st (Msg ''Settings missing content field'' [S ct]))
         | Some c \<Rightarrow>
             (case (case c of None \<Rightarrow> (True, st) | Some s \<Rightarrow> check_blob env st ''content settings of type'' [ct] s) of
                (False, st') \<Rightarrow> (False, st')
              | (True, st') \<Rightarrow>
                  (case check_groups env st' md ct {} g of
                     (False, st'') \<Rightarrow> (False, st'')
                   | (True, st'') \<Rightarrow> validate_settings_list env st'' md rest))))"

definition validate_settings :: "'s env \<Rightarrow> vstate \<Rightarrow> 's metadata \<Rightarrow> error + bool \<times> vstate" where
  "validate_settings env st md = Inr (validate_settings_list env st md (settings md))"

text \<open>
  \<^verbatim>\<open>_validate_product_counts\<close>. The first pass tallies the images that have a product
  other than \<^verbatim>\<open>all\<close>; \<open>all_images_count\<close> counts those of a content type tagged
  \<^verbatim>\<open>all\<close>; the last loop writes the sum into every product and warns where the
  stored count was different. It always returns \<^verbatim>\<open>True\<close>. The tally has an entry
  for every content type of \<^verbatim>\<open>products\<close>, so the lookup in the last loop cannot
  fail; a product the tally has not seen counts 0, as in a \<^verbatim>\<open>defaultdict(int)\<close>.
\<close>

fun count_pass :: "tally \<Rightarrow> (string \<times> 's image_data) list \<Rightarrow> error + tally" where
  "count_pass pc [] = Inr pc"
| "count_pass pc ((n, im) # rest) =
     (if truthy (product im) \<and> product im \<noteq> Some ''all'' then
        (case tally_add pc (content_type im) (the (product im)) of
           Inl e \<Rightarrow> Inl e
         | Inr pc' \<Rightarrow> count_pass pc' rest)
      else count_pass pc rest)"

definition all_images_count :: "'s metadata \<Rightarrow> string \<Rightarrow> int" where
  "all_images_count md ct =
     int (length (filter (\<lambda>(n, im). content_type im = ct \<and> product im = Some ''all'') (images md)))"

fun recount_products ::
  "(string \<times> int) list \<Rightarrow> int \<Rightarrow> string \<Rightarrow> vstate \<Rightarrow> product_info list
     \<Rightarrow> product_info list \<times> vstate" where
  "recount_products counts allc ct st [] = ([], st)"
| "recount_products counts allc ct st (q # qs) =
     (let stored_count = (case current_count q of None \<Rightarrow> 0 | Some c \<Rightarrow> c);
          actual_count = tally_get counts (name q) + allc;
          st' = (if stored_count \<noteq> actual_count
                 then add_warning st
                        (Msg ''Incorrect count''
                           [T ''Incorrect count for '', S ct, T ''/'', S (name q),
                            T '': metadata shows '', I stored_count,
                            T '' but found '', I actual_count, T '' images''])
                        None
                 else st)
      in (case recount_products counts allc ct st' qs of
            (qs', st'') \<Rightarrow> (q\<lparr>current_count := Some actual_count\<rparr> # qs', st'')))"

fun recount ::
  "tally \<Rightarrow> 's metadata \<Rightarrow> vstate \<Rightarrow> (string \<times> product_info list) list
     \<Rightarrow> (string \<times> product_info list) list \<times> vstate" where
  "recount pc md st [] = ([], st)"
| "recount pc md st ((ct, prods) # rest) =
     (case recount_products (case map_of pc ct of None \<Rightarrow> [] | Some m \<Rightarrow> m) (all_images_count md ct) ct st prods of
        (prods', st') \<Rightarrow>
          (case recount pc md st' rest of
             (rest', st'') \<Rightarrow> ((ct, prods') # rest', st'')))"

definition validate_product_counts ::
  "vstate \<Rightarrow> 's metadata \<Rightarrow> error + bool \<times> vstate \<times> 's metadata" where
  "validate_product_counts st md =
     (case count_pass (empty_tally md) (images md) of
        Inl e \<Rightarrow> Inl e
      | Inr pc \<Rightarrow>
          (case recount pc md st (products md) of
             (prods', st') \<Rightarrow> Inr (True, st', md\<lparr>products := prods'\<rparr>)))"

text \<open>
  \<^verbatim>\<open>validate\<close>. The lists of the validator are emptied first, whatever state \<open>st0\<close> a
  previous call left. A validator that returns \<^verbatim>\<open>False\<close> ends the run at once in
  strict mode and is remembered otherwise. The result is the verdict, the lists after
  the call and the store, whose counts the last validator rewrites.
\<close>

type_synonym 's vfun = "vstate \<Rightarrow> 's metadata \<Rightarrow> error + bool \<times> vstate \<times> 's metadata"

definition keep_store ::
  "(vstate \<Rightarrow> 's metadata \<Rightarrow> error + bool \<times> vstate) \<Rightarrow> 's vfun" where
  "keep_store v st md =
     (case v st md of Inl e \<Rightarrow> Inl e | Inr (ok, st') \<Rightarrow> Inr (ok, st', md))"

fun run_validators ::
  "bool \<Rightarrow> 's vfun list \<Rightarrow> bool \<Rightarrow> vstate \<Rightarrow> 's metadata \<Rightarrow> error + bool \<times> vstate \<times> 's metadata" where
  "run_validators strict [] valid st md =
     (if strict \<and> warnings st \<noteq> []
      then Inr (False, st\<lparr>errors := errors st @ warnings st\<rparr>, md)
      else Inr (valid, st, md))"
| "run_validators strict (v # vs) valid st md =
     (case v st md of
        Inl e \<Rightarrow> Inl e
      | Inr (ok, st', md') \<Rightarrow>
          if ok then run_validators strict vs valid st' md'
          else if strict then Inr (False, st', md')
          else run_validators strict vs False st' md')"

definition validators ::
  "'s env \<Rightarrow> bool \<Rightarrow> string list \<Rightarrow> (string \<times> string list) list \<Rightarrow> 's vfun list" where
  "validators env strict cts prods =
     [keep_store (\<lambda>st md. validate_content_types st md cts),
      keep_store (\<lambda>st md. validate_products env strict st md prods),
      keep_store (validate_structure env),
      keep_store (validate_images env strict),
      keep_store (validate_untagged env strict),
      keep_store (validate_settings env),
      validate_product_counts]"

definition validate ::
  "'s env \<Rightarrow> bool \<Rightarrow> vstate \<Rightarrow> 's metadata \<Rightarrow> string list \<Rightarrow> (string \<times> string list) list
     \<Rightarrow> error + bool \<times> vstate \<times> 's metadata" where
  "validate env strict st0 md cts prods =
     (let st = \<lparr>errors = [], warnings = [], seen_warnings = {}\<rparr>
      in if keys md \<noteq> REQUIRED_KEYS_ORDER
         then Inr (False, add_error st (Msg ''Metadata keys are not in correct order'' [L REQUIRED_KEYS_ORDER]), md)
         else run_validators strict (validators env strict cts prods) True st md)"

text \<open>
  \<^verbatim>\<open>Metadata.load\<close>. \<open>file\<close> is the content of \<^verbatim>\<open>metadata.json\<close> when the file
  exists; \<open>generated\<close> is what generating a new store would give when it does not.
  The handle keeps the store, the collected warnings and errors and whether an editor
  was attached. An exception of the validation is caught and gives \<^verbatim>\<open>False\<close>.
  The validator is created for the call, so its lists start empty.
\<close>

record 's handle =
  h_data :: "'s metadata option"
  h_warnings :: "msg list"
  h_errors :: "msg list"
  h_editor :: bool

definition load ::
  "'s env \<Rightarrow> 's metadata option \<Rightarrow> error + 's metadata \<Rightarrow> bool \<Rightarrow> 's handle
     \<Rightarrow> string list \<Rightarrow> (string \<times> string list) list \<Rightarrow> bool option \<Rightarrow> bool \<times> 's handle" where
  "load env file generated self_strict h cts prods strict =
     (case file of
        Some d \<Rightarrow>
          (case validate env (case strict of None \<Rightarrow> self_strict | Some b \<Rightarrow> b)
                  \<lparr>errors = [], warnings = [], seen_warnings = {}\<rparr> d cts prods of
             Inl e \<Rightarrow> (False, h\<lparr>h_data := Some d\<rparr>)
           | Inr (ok, st, d') \<Rightarrow>
               (let h' = h\<lparr>h_data := Some d', h_warnings := h_warnings h @ warnings st,
                           h_errors := h_errors h @ errors st\<rparr>
                in if \<not> ok then (False, h') else (True, h'\<lparr>h_editor := True\<rparr>)))
      | None \<Rightarrow>
          (case generated of
             Inl e \<Rightarrow> (False, h)
           | Inr d \<Rightarrow> (True, h\<lparr>h_data := Some d, h_editor := True\<rparr>)))"

section \<open>Auxiliary definitions and example inputs\<close>

text \<open>The count the tally holds for a content type and a product name, 0 when absent.\<close>

definition tally_lookup :: "tally \<Rightarrow> string \<Rightarrow> string \<Rightarrow> int" where
  "tally_lookup pc ct n = (case map_of pc ct of None \<Rightarrow> 0 | Some m \<Rightarrow> tally_get m n)"

text \<open>
  The number of images of a content type that are assigned the product \<open>n\<close> or the
  wildcard, each image counted once; an image is assigned a product when its product
  field is neither \<^verbatim>\<open>None\<close> nor empty.
\<close>

definition counted :: "'s metadata \<Rightarrow> string \<Rightarrow> string \<Rightarrow> int" where
  "counted md ct n =
     int (length (filter (\<lambda>(k, im). content_type im = ct \<and> truthy (product im) \<and>
                             (product im = Some n \<or> product im = Some ''all'')) (images md)))"

text \<open>
  The validator records a warning and its key together: as many keys seen as warnings
  listed.
\<close>

definition keyed :: "vstate \<Rightarrow> bool" where
  "keyed st = (finite (seen_warnings st) \<and> card (seen_warnings st) = length (warnings st))"

text \<open>
  A small project used to run the model: the content types \<^verbatim>\<open>hook\<close> and
  \<^verbatim>\<open>cta\<close>, the product \<^verbatim>\<open>mag\<close> with duplicate prevention and \<^verbatim>\<open>zinc\<close>
  without, three images in the hook folder. Settings blobs are strings here.
\<close>

definition hook_image :: "string option \<Rightarrow> string \<Rightarrow> string option \<Rightarrow> string image_data" where
  "hook_image p src s =
     \<lparr> content_type = ''hook'', dimensions = (1080, 1920), product = p,
       settings_source = src, img_settings = s \<rparr>"

definition demo_products :: "(string \<times> product_info list) list" where
  "demo_products =
     [(''hook'', [\<lparr>name = ''mag'', prevent_duplicates = True, min_occurrences = 2, current_count = Some 2\<rparr>,
                  \<lparr>name = ''zinc'', prevent_duplicates = False, min_occurrences = 0, current_count = Some 0\<rparr>]),
      (''cta'', [\<lparr>name = ''zinc'', prevent_duplicates = False, min_occurrences = 0, current_count = Some 0\<rparr>])]"

definition demo_store :: "string metadata" where
  "demo_store =
     \<lparr> keys = [''content_types'', ''products'', ''structure'', ''images'', ''untagged'', ''settings''],
       content_types = [''hook'', ''cta''],
       products = demo_products,
       struct = [(''hook'', \<lparr>path = [''base'', ''hook''], folder_images = [''a.png'', ''b.png'', ''c.png'']\<rparr>),
                 (''cta'', \<lparr>path = [''base'', ''cta''], folder_images = []\<rparr>)],
       images = [(''a.png'', hook_image (Some ''mag'') ''default'' None),
                 (''b.png'', hook_image (Some ''mag'') ''default'' None),
                 (''c.png'', hook_image None ''default'' None)],
       untagged = [],
       settings = [(''hook'', [(''content'', None), (''[mag, zinc]'', None)]),
                   (''cta'', [(''content'', None), (''[zinc]'', None)])] \<rparr>"

definition demo_expected :: "(string \<times> string list) list" where
  "demo_expected = [(''hook'', [''mag'', ''zinc'']), (''cta'', [''zinc''])]"

text \<open>An environment in which every file exists, has the stored size and every blob is accepted.\<close>

definition env_ok :: "string env" where
  "env_ok = \<lparr> path_exists = (\<lambda>p. True), image_size = (\<lambda>p. Some (1080, 1920)),
              check_settings = (\<lambda>s. None), captions_readable = True \<rparr>"

definition fresh :: vstate where
  "fresh = \<lparr>errors = [], warnings = [], seen_warnings = {}\<rparr>"

text \<open>The same project with a stale count for \<^verbatim>\<open>mag\<close> and the third image tagged \<^verbatim>\<open>all\<close>.\<close>

definition stale_store :: "string metadata" where
  "stale_store =
     demo_store\<lparr>
       products :=
         [(''hook'', [\<lparr>name = ''mag'', prevent_duplicates = True, min_occurrences = 2, current_count = Some 7\<rparr>,
                      \<lparr>name = ''zinc'', prevent_duplicates = False, min_occurrences = 0, current_count = None\<rparr>]),
          (''cta'', [\<lparr>name = ''zinc'', prevent_duplicates = False, min_occurrences = 0, current_count = Some 0\<rparr>])],
       images := [(''a.png'', hook_image (Some ''mag'') ''default'' None),
                  (''b.png'', hook_image (Some ''mag'') ''default'' None),
                  (''c.png'', hook_image (Some ''all'') ''default'' None)] \<rparr>"

text \<open>The project with its keys in another order.\<close>

definition misordered_store :: "string metadata" where
  "misordered_store =
     demo_store\<lparr>keys := [''products'', ''content_types'', ''structure'', ''images'', ''untagged'', ''settings'']\<rparr>"

text \<open>
  Images pinned to a level that has no settings: \<^verbatim>\<open>a.png\<close> custom without a blob,
  \<^verbatim>\<open>b.png\<close> content level, \<^verbatim>\<open>c.png\<close> product level; the content type has a
  group with settings, but it does not contain \<^verbatim>\<open>mag\<close>.
\<close>

definition pinned_store :: "string metadata" where
  "pinned_store =
     demo_store\<lparr>
       images := [(''a.png'', hook_image (Some ''mag'') ''custom'' None),
                  (''b.png'', hook_image (Some ''mag'') ''content'' None),
                  (''c.png'', hook_image (Some ''mag'') ''product'' None)],
       settings := [(''hook'', [(''content'', None), (''[mag]'', None), (''[zinc]'', Some ''Z'')]),
                    (''cta'', [(''content'', Some ''C''), (''[zinc]'', None)])] \<rparr>"

text \<open>A hook folder whose images are all tagged \<^verbatim>\<open>all\<close>.\<close>

definition wildcard_store :: "string metadata" where
  "wildcard_store =
     demo_store\<lparr>
       images := [(''a.png'', hook_image (Some ''all'') ''default'' None),
                  (''b.png'', hook_image (Some ''all'') ''default'' None),
                  (''c.png'', hook_image (Some ''all'') ''default'' None)] \<rparr>"

text \<open>The project with one untagged image; the file system holds it in the base folder.\<close>

definition untagged_store :: "string metadata" where
  "untagged_store = demo_store\<lparr>untagged := [''u.png'']\<rparr>"

definition base_fs :: "string list \<Rightarrow> string fobj option" where
  "base_fs = (\<lambda>p. if p = [''base'', ''u.png''] then Some (ImageFile 1080 1920) else None)"

definition io_fine :: io_outcome where
  "io_fine = \<lparr>rename_ok = True, open_ok = True, dump_ok = True\<rparr>"

text \<open>A patch that clears the product of an image.\<close>

definition untag_patch :: "string image_patch" where
  "untag_patch = \<lparr> new_content_type = None, new_dimensions = None, new_product = Some None,
                    new_settings_source = None, new_settings = None \<rparr>"

definition all_ok :: "string \<Rightarrow> string \<Rightarrow> string \<Rightarrow> bool" where
  "all_ok s img cap = True"

text \<open>
  The count stored for a product, a missing one read as 0 as the validator reads it, and
  the stores whose stored counts are the recomputed ones.
\<close>

definition stored :: "product_info \<Rightarrow> int" where
  "stored q = (case current_count q of None \<Rightarrow> 0 | Some c \<Rightarrow> c)"

definition counts_right :: "'s metadata \<Rightarrow> bool" where
  "counts_right md =
     (\<forall>(ct, ps) \<in> set (products md). \<forall>q \<in> set ps. stored q = counted md ct (name q))"

text \<open>A store with the count of every product replaced, and the store with its counts recomputed.\<close>

definition with_counts :: "(string \<Rightarrow> product_info \<Rightarrow> int option) \<Rightarrow> 's metadata \<Rightarrow> 's metadata" where
  "with_counts f md =
     md\<lparr>products := map (\<lambda>(ct, ps). (ct, map (\<lambda>q. q\<lparr>current_count := f ct q\<rparr>) ps)) (products md)\<rparr>"

definition recounted :: "'s metadata \<Rightarrow> 's metadata" where
  "recounted md = with_counts (\<lambda>ct q. Some (counted md ct (name q))) md"

text \<open>The demo project before any count was written for \<^verbatim>\<open>zinc\<close>.\<close>

definition uncounted_store :: "string metadata" where
  "uncounted_store =
     demo_store\<lparr>
       products :=
         [(''hook'', [\<lparr>name = ''mag'', prevent_duplicates = True, min_occurrences = 2, current_count = Some 2\<rparr>,
                      \<lparr>name = ''zinc'', prevent_duplicates = False, min_occurrences = 0, current_count = None\<rparr>]),
          (''cta'', [\<lparr>name = ''zinc'', prevent_duplicates = False, min_occurrences = 0, current_count = None\<rparr>])] \<rparr>"

text \<open>
  The project with \<^verbatim>\<open>c.png\<close> assigned \<^verbatim>\<open>zinc\<close> and pinned to the product level;
  the group of \<^verbatim>\<open>zinc\<close> has no settings, a group \<^verbatim>\<open>[all]\<close> has.
\<close>

definition wildcard_group_store :: "string metadata" where
  "wildcard_group_store =
     demo_store\<lparr>
       products :=
         [(''hook'', [\<lparr>name = ''mag'', prevent_duplicates = True, min_occurrences = 2, current_count = Some 2\<rparr>,
                      \<lparr>name = ''zinc'', prevent_duplicates = False, min_occurrences = 0, current_count = Some 1\<rparr>]),
          (''cta'', [\<lparr>name = ''zinc'', prevent_duplicates = False, min_occurrences = 0, current_count = Some 0\<rparr>])],
       images := [(''a.png'', hook_image (Some ''mag'') ''default'' None),
                  (''b.png'', hook_image (Some ''mag'') ''default'' None),
                  (''c.png'', hook_image (Some ''zinc'') ''product'' None)],
       settings := [(''hook'', [(''content'', None), (''[mag, zinc]'', None), (''[all]'', Some ''A'')]),
                    (''cta'', [(''content'', None), (''[zinc]'', None)])] \<rparr>"

text \<open>The outcome in which the file is opened for writing and the dump fails.\<close>

definition io_dump_fails :: io_outcome where
  "io_dump_fails = \<lparr>rename_ok = True, open_ok = True, dump_ok = False\<rparr>"

section \<open>Editor: counts, untagged list, product-level settings\<close>

text \<open>
  C7 (defect in the code). The claim: the counts are moved within the content type stored
  for the image. In the example the image \<^verbatim>\<open>a.png\<close> belongs to \<^verbatim>\<open>hook\<close> and
  carries \<^verbatim>\<open>mag\<close>; the caller passes the stale content type \<^verbatim>\<open>cta\<close> and the
  new product \<^verbatim>\<open>zinc\<close>. The product is accepted against the products of
  \<^verbatim>\<open>hook\<close> and the record is updated, but the counts of \<^verbatim>\<open>hook\<close> stay as
  they were (\<^verbatim>\<open>mag\<close> 2, \<^verbatim>\<open>zinc\<close> 0) and the count of \<^verbatim>\<open>zinc\<close> in
  \<^verbatim>\<open>cta\<close> goes from 0 to 1.
\<close>

theorem update_image_product_counts_in_passed_type:
  "map_sum id (\<lambda>md. (map_of (images md) ''a.png'', products md))
     (update_image_product demo_store ''a.png'' ''cta'' ''zinc'')
   = Inr (Some (hook_image (Some ''zinc'') ''default'' None),
          [(''hook'', [\<lparr>name = ''mag'', prevent_duplicates = True, min_occurrences = 2, current_count = Some 2\<rparr>,
                       \<lparr>name = ''zinc'', prevent_duplicates = False, min_occurrences = 0, current_count = Some 0\<rparr>]),
           (''cta'', [\<lparr>name = ''zinc'', prevent_duplicates = False, min_occurrences = 0, current_count = Some 1\<rparr>])])"
  by (simp add: update_image_product_def demo_store_def demo_products_def hook_image_def
        count_step_def update_product_count_def)

text \<open>
  What \<open>update_image_product\<close> does keep: a product it accepts is a product of the
  content type stored for the image.
\<close>

lemma update_image_product_validates_actual_type:
  assumes "update_image_product md image_name ct newp = Inr md'"
  shows "\<exists>im ps. map_of (images md) image_name = Some im
           \<and> map_of (products md) (content_type im) = Some ps \<and> newp \<in> set (map name ps)"
  using assms
  by (auto simp: update_image_product_def split: option.splits if_splits)

text \<open>
  C8 (defect in the code). The claim: \<open>edit_image\<close> keeps the untagged list sorted.
  The list \<^verbatim>\<open>["b.png"]\<close> is sorted and free of duplicates; clearing the product of
  \<^verbatim>\<open>a.png\<close>, which is not in the list, appends the name at the end and leaves
  \<^verbatim>\<open>["b.png", "a.png"]\<close>, which is not sorted.
\<close>

theorem edit_image_appends_unsorted:
  "sorted (untagged (demo_store\<lparr>untagged := [''b.png'']\<rparr>))
   \<and> distinct (untagged (demo_store\<lparr>untagged := [''b.png'']\<rparr>))
   \<and> map_sum id untagged (edit_image (demo_store\<lparr>untagged := [''b.png'']\<rparr>) ''a.png'' untag_patch)
       = Inr [''b.png'', ''a.png'']
   \<and> \<not> sorted [''b.png'', ''a.png'']"
  by (simp add: edit_image_def demo_store_def demo_products_def hook_image_def untag_patch_def
        count_step_def update_product_count_def apply_patch_def)

text \<open>
  The parts of the invariant \<open>edit_image\<close> does keep: the list stays free of
  duplicates, and it stays sorted whenever the call does not clear a product.
\<close>

lemma count_step_untagged: "count_step md ct p inc = Inr md' \<Longrightarrow> untagged md' = untagged md"
  by (auto simp: count_step_def update_product_count_def split: if_splits option.splits)

lemma edit_image_untagged:
  assumes "edit_image md image_name d = Inr md'"
  shows "untagged md' =
           (case new_product d of
              None \<Rightarrow> untagged md
            | Some None \<Rightarrow> (if image_name \<in> set (untagged md) then untagged md
                            else untagged md @ [image_name])
            | Some (Some p) \<Rightarrow> filter (\<lambda>img. img \<noteq> image_name) (untagged md))"
  using assms
  by (auto simp: edit_image_def split: option.splits sum.splits dest!: count_step_untagged)

lemma edit_image_keeps_distinct:
  assumes "edit_image md image_name d = Inr md'" "distinct (untagged md)"
  shows "distinct (untagged md')"
  using assms(2) by (auto simp: edit_image_untagged[OF assms(1)] split: option.splits)

lemma edit_image_keeps_sorted_unless_cleared:
  assumes "edit_image md image_name d = Inr md'" "sorted (untagged md)" "new_product d \<noteq> Some None"
  shows "sorted (untagged md')"
  using assms(2,3) by (auto simp: edit_image_untagged[OF assms(1)] sorted_wrt_filter split: option.splits)

text \<open>
  C9 (corrected). The claim describes a regrouping of the product groups. At the product
  level \<open>edit_settings\<close> returns no store at all: in the example the call for
  \<^verbatim>\<open>mag\<close> of \<^verbatim>\<open>hook\<close> ends in \<^verbatim>\<open>NotImplementedError\<close>, so no group holding
  \<^verbatim>\<open>mag\<close> with the new settings exists afterwards.
\<close>

theorem edit_settings_product_counterexample:
  "\<not> (\<exists>md'. edit_settings demo_store ''product'' ''mag'' (Some ''N'') (Some ''hook'') = Inr md'
          \<and> (\<exists>g grp. map_of (settings md') ''hook'' = Some g \<and> (grp, Some ''N'') \<in> set g
                 \<and> ''mag'' \<in> set (group_products grp)))"
  by (simp add: edit_settings_def)

text \<open>
  C9, as amended: at the product level \<open>edit_settings\<close> never changes the store. With
  a content type it raises \<^verbatim>\<open>NotImplementedError\<close>, without one the ValueError
  asking for it, whatever the target, the data and the store.
\<close>

theorem edit_settings_product_not_implemented:
  "edit_settings md ''product'' target d ct =
     Inl (if truthy ct then NotImplementedError else ContentTypeRequired)"
  by (simp add: edit_settings_def)

theorem edit_settings_product_not_implemented_witness:
  "edit_settings demo_store ''product'' ''mag'' (Some ''N'') (Some ''hook'') = Inl NotImplementedError
   \<and> edit_settings demo_store ''product'' ''mag'' (Some ''N'') None = Inl ContentTypeRequired"
  using edit_settings_product_not_implemented[of demo_store "''mag''" "Some ''N''" "Some ''hook''"]
        edit_settings_product_not_implemented[of demo_store "''mag''" "Some ''N''" None]
  by simp

section \<open>Moving an untagged image: the checks come first\<close>

text \<open>
  C6. When the image is not in the untagged list, or the target is not a content type, or
  the target has no folder, or the source file is missing, or the destination exists,
  \<open>move_untagged_image\<close> raises an error and returns the store and the file system it
  was given: nothing was renamed and nothing was written.
\<close>

theorem move_untagged_image_checks_first:
  assumes "image_name \<notin> set (untagged md) \<or> target \<notin> set (content_types md) \<or>
           (\<forall>st. map_of (struct md) target = Some st \<longrightarrow>
                 fs (butlast (path st) @ [image_name]) = None \<or> fs (path st @ [image_name]) \<noteq> None)"
  shows "\<exists>e. move_untagged_image io fs md image_name target = (Some e, md, fs)"
  using assms by (auto simp: move_untagged_image_def Let_def split: option.splits)

theorem move_untagged_image_checks_first_witness:
  "\<exists>e. move_untagged_image io_fine (\<lambda>p. None) untagged_store ''u.png'' ''hook''
          = (Some e, untagged_store, (\<lambda>p. None))"
  using move_untagged_image_checks_first[of "''u.png''" untagged_store "''hook''" "\<lambda>p. None" io_fine]
  by simp

text \<open>
  When all the checks pass and the rename succeeds, the file is at its destination
  afterwards and the source path is free.
\<close>

lemma move_untagged_image_renames:
  assumes "image_name \<in> set (untagged md)" "target \<in> set (content_types md)"
    "map_of (struct md) target = Some st"
    "fs (butlast (path st) @ [image_name]) = Some f" "fs (path st @ [image_name]) = None"
    "rename_ok io" "image_name \<noteq> ''metadata.json''"
    "move_untagged_image io fs md image_name target = (r, md', fs')"
  shows "fs' (path st @ [image_name]) = Some f \<and> fs' (butlast (path st) @ [image_name]) = None"
proof -
  have ne: "butlast (path st) @ [image_name] \<noteq> path st @ [image_name]"
    using assms(4,5) by auto
  have nm: "butlast (path st) @ [''metadata.json''] \<noteq> butlast (path st) @ [image_name]"
    using assms(7) by simp
  have nd: "butlast (path st) @ [''metadata.json''] \<noteq> path st @ [image_name]"
    using assms(7) by (metis last_snoc)
  show ?thesis
    using assms ne nm nd
    by (auto simp: move_untagged_image_def Let_def split: option.splits fobj.splits if_splits)
qed

text \<open>
  The example project: the untagged image \<^verbatim>\<open>u.png\<close> is moved into the hook folder,
  gets a fresh record, leaves the untagged list, and the store is written out.
\<close>

lemma move_untagged_image_example:
  "(case move_untagged_image io_fine base_fs untagged_store ''u.png'' ''hook'' of
      (e, m, f) \<Rightarrow>
        e = None \<and> untagged m = [] \<and> map fst (images m) = [''a.png'', ''b.png'', ''c.png'', ''u.png'']
        \<and> map_of (struct m) ''hook''
            = Some \<lparr>path = [''base'', ''hook''], folder_images = [''a.png'', ''b.png'', ''c.png'', ''u.png'']\<rparr>
        \<and> f [''base'', ''u.png''] = None
        \<and> f [''base'', ''hook'', ''u.png''] = Some (ImageFile 1080 1920)
        \<and> f [''base'', ''metadata.json''] = Some (MetadataFile m))"
  by code_simp

text \<open>
  When the dump fails after the file was opened for writing, the error is raised with
  the image moved, the store updated in memory, and a partial \<^verbatim>\<open>metadata.json\<close>.
\<close>

lemma move_untagged_image_failed_dump:
  "(case move_untagged_image io_dump_fails base_fs untagged_store ''u.png'' ''hook'' of
      (e, m, f) \<Rightarrow>
        e = Some (FailedToMove OSError) \<and> untagged m = []
        \<and> f [''base'', ''u.png''] = None
        \<and> f [''base'', ''hook'', ''u.png''] = Some (ImageFile 1080 1920)
        \<and> f [''base'', ''metadata.json''] = Some PartialFile)"
  by code_simp

section \<open>Generator: settings of the chosen image\<close>

lemma find_product_settings_None:
  "(\<forall>grp s. (grp, s) \<in> set g \<longrightarrow> grp \<noteq> ''content'' \<longrightarrow> p \<in> set (group_products grp) \<longrightarrow> s = None)
   \<Longrightarrow> find_product_settings p g = None"
  by (induction g) auto

lemma find_product_settings_Some:
  "find_product_settings p g = Some s \<Longrightarrow>
   \<exists>grp. (grp, Some s) \<in> set g \<and> grp \<noteq> ''content'' \<and> p \<in> set (group_products grp)"
  by (induction g) (auto split: if_splits)


text \<open>
  What the resolver does for the product it is called with. \<open>get_image_settings\<close>
  looks only at the level the image's own \<^verbatim>\<open>settings_source\<close> names. For an image
  with a record: a custom image without a blob, a content image whose content type has a
  null content blob, and a product image for which no group containing the product
  \<open>p\<close> of the call holds a blob, all end in the error \<open>FailedToGetSettings\<close>; and
  whenever a blob is returned it is the blob of the named level (the default template,
  the image's own blob, the content blob, or the blob of a group that contains \<open>p\<close>).
  The product of the image itself is never read.
\<close>

lemma resolver_keeps_to_named_level:
  assumes "map_of (images md) (path_name image_path) = Some im"
  shows
    "(settings_source im = ''custom'' \<and> img_settings im = None \<longrightarrow>
        get_image_settings tmpl md ct p image_path =
          Inl (FailedToGetSettings (path_name image_path) (NoCustomSettings (path_name image_path))))
     \<and> (settings_source im = ''content'' \<and>
          (\<forall>g. map_of (settings md) ct = Some g \<longrightarrow> map_of g ''content'' = Some None) \<longrightarrow>
        (\<exists>e. get_image_settings tmpl md ct p image_path = Inl (FailedToGetSettings (path_name image_path) e)))
     \<and> (settings_source im = ''product'' \<and>
          (\<forall>g grp s. map_of (settings md) ct = Some g \<longrightarrow> (grp, s) \<in> set g \<longrightarrow> grp \<noteq> ''content''
               \<longrightarrow> p \<in> set (group_products grp) \<longrightarrow> s = None) \<longrightarrow>
        (\<exists>e. get_image_settings tmpl md ct p image_path = Inl (FailedToGetSettings (path_name image_path) e)))
     \<and> (\<forall>s. get_image_settings tmpl md ct p image_path = Inr s \<longrightarrow>
          (settings_source im = ''default'' \<and> tmpl = Some s)
          \<or> (settings_source im = ''custom'' \<and> img_settings im = Some s)
          \<or> (settings_source im = ''content'' \<and>
               (\<exists>g. map_of (settings md) ct = Some g \<and> map_of g ''content'' = Some (Some s)))
          \<or> (settings_source im = ''product'' \<and>
               (\<exists>g grp. map_of (settings md) ct = Some g \<and> (grp, Some s) \<in> set g \<and> grp \<noteq> ''content''
                   \<and> p \<in> set (group_products grp))))"
proof (intro conjI impI allI)
  assume "settings_source im = ''custom'' \<and> img_settings im = None"
  with assms show "get_image_settings tmpl md ct p image_path =
          Inl (FailedToGetSettings (path_name image_path) (NoCustomSettings (path_name image_path)))"
    by (simp add: get_image_settings_def resolve_settings_def)
next
  assume a: "settings_source im = ''content'' \<and>
          (\<forall>g. map_of (settings md) ct = Some g \<longrightarrow> map_of g ''content'' = Some None)"
  with assms show "\<exists>e. get_image_settings tmpl md ct p image_path = Inl (FailedToGetSettings (path_name image_path) e)"
    by (cases "map_of (settings md) ct") (auto simp: get_image_settings_def resolve_settings_def)
next
  assume a: "settings_source im = ''product'' \<and>
          (\<forall>g grp s. map_of (settings md) ct = Some g \<longrightarrow> (grp, s) \<in> set g \<longrightarrow> grp \<noteq> ''content''
               \<longrightarrow> p \<in> set (group_products grp) \<longrightarrow> s = None)"
  show "\<exists>e. get_image_settings tmpl md ct p image_path = Inl (FailedToGetSettings (path_name image_path) e)"
  proof (cases "map_of (settings md) ct")
    case None
    with assms a show ?thesis by (simp add: get_image_settings_def resolve_settings_def)
  next
    case (Some g)
    with a have "find_product_settings p g = None"
      by (intro find_product_settings_None) blast
    with assms a Some show ?thesis by (simp add: get_image_settings_def resolve_settings_def)
  qed
next
  fix s assume r: "get_image_settings tmpl md ct p image_path = Inr s"
  then have rs: "resolve_settings tmpl md ct p (path_name image_path) = Inr s"
    by (auto simp: get_image_settings_def split: sum.splits)
  with assms show "(settings_source im = ''default'' \<and> tmpl = Some s)
          \<or> (settings_source im = ''custom'' \<and> img_settings im = Some s)
          \<or> (settings_source im = ''content'' \<and>
               (\<exists>g. map_of (settings md) ct = Some g \<and> map_of g ''content'' = Some (Some s)))
          \<or> (settings_source im = ''product'' \<and>
               (\<exists>g grp. map_of (settings md) ct = Some g \<and> (grp, Some s) \<in> set g \<and> grp \<noteq> ''content''
                   \<and> p \<in> set (group_products grp)))"
    by (auto simp: resolve_settings_def split: if_splits option.splits dest: find_product_settings_Some)
qed

lemma resolver_keeps_to_named_level_example:
  "get_image_settings (Some ''T'') pinned_store ''hook'' ''mag'' ''a.png''
     = Inl (FailedToGetSettings ''a.png'' (NoCustomSettings ''a.png''))
   \<and> (\<exists>e. get_image_settings (Some ''T'') pinned_store ''hook'' ''mag'' ''b.png''
              = Inl (FailedToGetSettings ''b.png'' e))
   \<and> (\<exists>e. get_image_settings (Some ''T'') pinned_store ''hook'' ''mag'' ''c.png''
              = Inl (FailedToGetSettings ''c.png'' e))"
proof -
  have n: "path_name ''a.png'' = ''a.png''" "path_name ''b.png'' = ''b.png''" "path_name ''c.png'' = ''c.png''"
    by (simp_all add: path_name_def)
  have a: "map_of (images pinned_store) (path_name ''a.png'') = Some (hook_image (Some ''mag'') ''custom'' None)"
    and b: "map_of (images pinned_store) (path_name ''b.png'') = Some (hook_image (Some ''mag'') ''content'' None)"
    and c: "map_of (images pinned_store) (path_name ''c.png'') = Some (hook_image (Some ''mag'') ''product'' None)"
    by (simp_all add: n pinned_store_def demo_store_def)
  have g: "group_products ''[mag]'' = [''mag'']" "group_products ''[zinc]'' = [''zinc'']"
    by (simp_all add: group_products_def slice_inner_def strip_def is_space_def)
  show ?thesis
    using resolver_keeps_to_named_level[OF a, of "Some ''T''" "''hook''" "''mag''"]
          resolver_keeps_to_named_level[OF b, of "Some ''T''" "''hook''" "''mag''"]
          resolver_keeps_to_named_level[OF c, of "Some ''T''" "''hook''" "''mag''"]
    by (simp add: n g hook_image_def pinned_store_def demo_store_def)
qed


text \<open>
  The store of the example passes the validation in non-strict mode, with the warning
  that the image has no product settings.
\<close>

lemma wildcard_group_store_validates:
  "validate env_ok False fresh wildcard_group_store [''hook'', ''cta''] demo_expected
     = Inr (True,
            \<lparr>errors = [],
             warnings = [Msg ''will use default settings as no product settings found''
                           [T ''Image '', S ''c.png'',
                            T '' will use default settings as no product settings found'']],
             seen_warnings = {''Image c.png will use default settings as no product settings found''}\<rparr>,
            wildcard_group_store)"
  by code_simp

section \<open>Generator: candidate pools\<close>

lemma dropWhile_id: "xs = [] \<or> \<not> P (hd xs) \<Longrightarrow> dropWhile P xs = xs"
  by (cases xs) auto

lemma dropWhile_rev_fix:
  assumes "t = [] \<or> \<not> P (hd t)"
  shows "dropWhile P (rev (dropWhile P (rev t))) = rev (dropWhile P (rev t))"
proof (cases "dropWhile P (rev t)")
  case Nil
  show ?thesis unfolding Nil by simp
next
  case (Cons a r)
  have "rev t = takeWhile P (rev t) @ dropWhile P (rev t)" by simp
  with Cons have "rev t = takeWhile P (rev t) @ a # r" by simp
  then have "t = rev (a # r) @ rev (takeWhile P (rev t))"
    by (metis rev_append rev_rev_ident)
  then have "hd t = hd (rev (a # r))" and "t \<noteq> []"
    by (metis hd_append2 Nil_is_rev_conv list.distinct(1), metis Nil_is_append_conv Nil_is_rev_conv list.distinct(1))
  with assms have "\<not> P (hd (rev (a # r)))" by simp
  then have "dropWhile P (rev (a # r)) = rev (a # r)" by (intro dropWhile_id) simp
  with Cons show ?thesis by simp
qed

lemma strip_idem: "strip (strip s) = strip s"
proof -
  define t where "t = dropWhile is_space s"
  define r where "r = dropWhile is_space (rev t)"
  have t: "t = [] \<or> \<not> is_space (hd t)" unfolding t_def using hd_dropWhile by blast
  have r: "r = [] \<or> \<not> is_space (hd r)" unfolding r_def using hd_dropWhile by blast
  have 1: "dropWhile is_space (rev r) = rev r"
    unfolding r_def using t by (rule dropWhile_rev_fix)
  have 2: "dropWhile is_space r = r" using r by (rule dropWhile_id)
  have "strip s = rev r" by (simp add: strip_def r_def t_def)
  then show ?thesis by (simp add: strip_def 1 2)
qed

lemma matching_images_sound:
  "matching_images md l p = Inr r \<Longrightarrow> i \<in> set r \<Longrightarrow>
   i \<in> set l \<and> (\<exists>im. map_of (images md) i = Some im \<and> product im = Some p)"
  by (induction l arbitrary: r) (auto split: option.splits sum.splits if_splits)

lemma matching_images_none:
  "\<forall>i \<in> set l. \<exists>im. map_of (images md) i = Some im \<and> product im \<noteq> Some p \<Longrightarrow>
   matching_images md l p = Inr []"
  by (induction l) auto

lemma without_used_subset: "without_used used ct p m = Inr m' \<Longrightarrow> set m' \<subseteq> set m"
  by (auto simp: without_used_def split: if_splits sum.splits)

lemma all_pool_sound:
  "all_pool md ct used allow l qs = Inr r \<Longrightarrow> i \<in> set r \<Longrightarrow>
   \<exists>im q. q \<in> set qs \<and> map_of (images md) i = Some im \<and> product im = Some (name q)"
proof (induction qs arbitrary: r)
  case Nil
  then show ?case by simp
next
  case (Cons q qs)
  show ?case
  proof (cases "prevent_duplicates q \<and> \<not> allow")
    case True
    with Cons.prems have "all_pool md ct used allow l qs = Inr r" by simp
    from Cons.IH[OF this Cons.prems(2)] show ?thesis by auto
  next
    case False
    with Cons.prems(1) obtain m m' rest where
      m: "matching_images md l (name q) = Inr m"
      and m': "(if prevent_duplicates q then without_used used ct (name q) m else Inr m) = Inr m'"
      and rest: "all_pool md ct used allow l qs = Inr rest" and r: "r = m' @ rest"
      by (auto split: sum.splits)
    from m' have sub: "set m' \<subseteq> set m" by (auto split: if_splits dest: without_used_subset)
    from Cons.prems(2) r consider "i \<in> set m'" | "i \<in> set rest" by auto
    then show ?thesis
    proof cases
      case 1
      with sub matching_images_sound[OF m, of i] show ?thesis by auto
    next
      case 2
      from Cons.IH[OF rest 2] show ?thesis by auto
    qed
  qed
qed

lemma all_pool_none:
  "\<forall>q \<in> set qs. matching_images md l (name q) = Inr [] \<Longrightarrow>
   all_pool md ct used allow l qs = Inr []"
  by (induction qs) (auto simp: without_used_def)

lemma find_name: "find (\<lambda>q. name q = n) ps = Some q \<Longrightarrow> q \<in> set ps \<and> name q = n"
  by (induction ps) (auto split: if_splits)


text \<open>
  C10. Let \<^verbatim>\<open>all\<close> not be a declared product of the content type. Then every image
  of a candidate pool has a record whose product is not \<^verbatim>\<open>all\<close>: for a concrete
  product it is the (stripped) product asked for, for the wildcard it is the name of a
  declared product. And when every image listed for the content type is tagged
  \<^verbatim>\<open>all\<close>, a slot of that content type ends in the pool-exhaustion error, whatever
  product it names; the used-image table is only asked to have a list for every declared
  product, as the one built for a post has.
\<close>

theorem all_tagged_images_never_selected:
  assumes undeclared: "\<forall>ps. map_of (products md) ct = Some ps \<longrightarrow> ''all'' \<notin> set (map name ps)"
  shows "(\<forall>used allow pool i. get_available_images md ct p used allow = Inr pool \<longrightarrow> i \<in> set pool \<longrightarrow>
            (\<exists>im. map_of (images md) i = Some im \<and> product im \<noteq> Some ''all'' \<and>
                  (if strip p = ''all''
                   then \<exists>ps q. map_of (products md) ct = Some ps \<and> q \<in> set ps \<and> product im = Some (name q)
                   else product im = Some (strip p))))
       \<and> (\<forall>st ps used. map_of (struct md) ct = Some st \<longrightarrow> map_of (products md) ct = Some ps \<longrightarrow>
             (\<forall>i \<in> set (folder_images st). \<exists>im. map_of (images md) i = Some im \<and> product im = Some ''all'') \<longrightarrow>
             (\<forall>q \<in> set ps. \<exists>u. used_list used ct (name q) = Inr u) \<longrightarrow>
             (\<forall>render tmpl r cap allow.
                generate_single_image render tmpl md r ct p cap used allow = Inl (NoAvailableImages ct p)))"
proof -
  have A: "\<exists>im. map_of (images md) i = Some im \<and> product im \<noteq> Some ''all'' \<and>
                  (if strip p = ''all''
                   then \<exists>ps q. map_of (products md) ct = Some ps \<and> q \<in> set ps \<and> product im = Some (name q)
                   else product im = Some (strip p))"
    if av: "get_available_images md ct p used allow = Inr pool" and i: "i \<in> set pool"
    for used allow pool i
  proof -
    from av obtain st where st: "map_of (struct md) ct = Some st"
      by (auto simp: get_available_images_def Let_def split: option.splits)
    show ?thesis
    proof (cases "strip p = ''all''")
      case True
      with av st obtain ps where ps: "map_of (products md) ct = Some ps"
        and pool: "all_pool md ct used allow (folder_images st) ps = Inr pool"
        by (auto simp: get_available_images_def Let_def split: option.splits)
      from all_pool_sound[OF pool i] obtain im q where
        q: "q \<in> set ps" and im: "map_of (images md) i = Some im" "product im = Some (name q)" by blast
      from undeclared ps q have "name q \<noteq> ''all''" by (metis image_eqI set_map)
      with q im ps True show ?thesis by auto
    next
      case False
      with av st obtain available where m: "matching_images md (folder_images st) (strip p) = Inr available"
        and sub: "set pool \<subseteq> set available"
        by (auto simp: get_available_images_def Let_def split: option.splits sum.splits bool.splits)
      from i sub have "i \<in> set available" by auto
      from matching_images_sound[OF m this] obtain im where
        "map_of (images md) i = Some im" "product im = Some (strip p)" by blast
      with False show ?thesis by auto
    qed
  qed
  have B: "generate_single_image render tmpl md r ct p cap used allow = Inl (NoAvailableImages ct p)"
    if st: "map_of (struct md) ct = Some st" and ps: "map_of (products md) ct = Some ps"
      and tagged: "\<forall>i \<in> set (folder_images st). \<exists>im. map_of (images md) i = Some im \<and> product im = Some ''all''"
      and used: "\<forall>q \<in> set ps. \<exists>u. used_list used ct (name q) = Inr u"
    for st ps used render tmpl r cap allow
  proof -
    from undeclared ps have nall: "\<forall>q \<in> set ps. name q \<noteq> ''all''" by force
    have none: "matching_images md (folder_images st) n = Inr []" if "n \<noteq> ''all''" for n
      using tagged that by (intro matching_images_none) auto
    have "get_available_images md ct p used allow = Inr []"
    proof (cases "strip p = ''all''")
      case True
      have "all_pool md ct used allow (folder_images st) ps = Inr []"
        using nall by (intro all_pool_none ballI none) auto
      with True st ps show ?thesis by (simp add: get_available_images_def)
    next
      case False
      show ?thesis
      proof (cases "find (\<lambda>q. name q = strip p) ps")
        case None
        with False st ps none[OF False] show ?thesis
          by (simp add: get_available_images_def should_prevent_duplicates_def strip_idem)
      next
        case (Some q)
        from find_name[OF Some] used obtain u where "used_list used ct (strip p) = Inr u" by auto
        with Some False st ps none[OF False] show ?thesis
          by (simp add: get_available_images_def should_prevent_duplicates_def strip_idem split: bool.splits)
      qed
    qed
    then show ?thesis by (simp add: generate_single_image_def)
  qed
  show ?thesis
    apply (intro conjI allI impI)
    subgoal for used allow pool i by (rule A)
    subgoal premises prems for st ps used render tmpl r cap allow
      using prems by (rule B)
    done
qed

theorem all_tagged_images_never_selected_witness:
  "generate_single_image all_ok (Some ''T'') wildcard_store 5 ''hook'' ''mag'' ''hello''
     [(''hook'', [(''mag'', []), (''zinc'', [])]), (''cta'', [(''zinc'', [])])] False
     = Inl (NoAvailableImages ''hook'' ''mag'')
   \<and> generate_single_image all_ok (Some ''T'') wildcard_store 5 ''hook'' ''all'' ''hello''
     [(''hook'', [(''mag'', []), (''zinc'', [])]), (''cta'', [(''zinc'', [])])] True
     = Inl (NoAvailableImages ''hook'' ''all'')"
proof -
  have u: "\<forall>ps. map_of (products wildcard_store) ''hook'' = Some ps \<longrightarrow> ''all'' \<notin> set (map name ps)"
    by (simp add: wildcard_store_def demo_store_def demo_products_def)
  show ?thesis
    using all_tagged_images_never_selected[OF u, of "''mag''"]
          all_tagged_images_never_selected[OF u, of "''all''"]
    by (simp add: wildcard_store_def demo_store_def demo_products_def hook_image_def used_list_def)
qed

section \<open>Generator: duplicate prevention within a post\<close>

lemma record_used_list:
  assumes "used_list used ct p = Inr u"
  shows "\<exists>used'. record_used used ct p x = Inr used' \<and> used_list used' ct p = Inr (u @ [x])"
  using assms
  by (auto simp: used_list_def record_used_def update_conv' split: option.splits)

lemma record_used_result:
  assumes "record_used used ct p x = Inr used'"
  shows "\<exists>u. used_list used ct p = Inr u \<and> used_list used' ct p = Inr (u @ [x])"
  using assms
  by (auto simp: used_list_def record_used_def update_conv' split: option.splits)

lemma map_of_names_empty:
  "p \<in> set (map name ps) \<Longrightarrow> map_of (map (\<lambda>q. (name q, [])) ps) p = Some []"
  by (induction ps) auto

lemma init_used_for_lookup:
  "init_used_for prods cts = Inr used0 \<Longrightarrow> ct \<in> set cts \<Longrightarrow> map_of prods ct = Some ps \<Longrightarrow>
   map_of used0 ct = Some (map (\<lambda>q. (name q, [])) ps)"
  by (induction cts arbitrary: used0) (auto split: option.splits sum.splits)

lemma init_used_list:
  assumes "init_used md = Inr used0" "ct \<in> set (content_types md)"
    "map_of (products md) ct = Some ps" "p \<in> set (map name ps)"
  shows "used_list used0 ct p = Inr []"
proof -
  have 1: "map_of used0 ct = Some (map (\<lambda>q. (name q, [])) ps)"
    using init_used_for_lookup[OF assms(1)[unfolded init_used_def] assms(2,3)] .
  have 2: "map_of (map (\<lambda>q. (name q, [])) ps) p = Some []"
    using map_of_names_empty[OF assms(4)] .
  show ?thesis by (simp only: used_list_def 1 2 option.case)
qed

lemma available_concrete:
  assumes "map_of (struct md) ct = Some st" "map_of (products md) ct = Some ps"
    "find (\<lambda>q. name q = p) ps = Some q" "prevent_duplicates q" "strip p = p" "p \<noteq> ''all''"
    "matching_images md (folder_images st) p = Inr m" "used_list used ct p = Inr u"
  shows "get_available_images md ct p used allow = Inr (filter (\<lambda>i. i \<notin> set u) m)"
  using assms by (simp add: get_available_images_def should_prevent_duplicates_def)

lemma recorded_and_excluded:
  assumes sp: "should_prevent_duplicates md ct p = Inr True" and s: "strip p = p" and na: "p \<noteq> ''all''"
  shows "(\<forall>rnd_r cap used allow out used'.
            generate_single_image render tmpl md rnd_r ct p cap used allow = Inr (out, used') \<longrightarrow>
            (\<exists>u. used_list used ct p = Inr u \<and> fst out \<notin> set u \<and> used_list used' ct p = Inr (u @ [fst out])))
       \<and> (\<forall>used allow pool u x. used_list used ct p = Inr u \<longrightarrow> x \<in> set u \<longrightarrow>
            get_available_images md ct p used allow = Inr pool \<longrightarrow> x \<notin> set pool)"
proof -
  have av: "\<exists>m u. used_list used ct p = Inr u \<and> pool = filter (\<lambda>i. i \<notin> set u) m"
    if "get_available_images md ct p used allow = Inr pool" for used allow pool
    using that sp s na
    by (auto simp: get_available_images_def Let_def split: option.splits sum.splits bool.splits)
  have A: "\<exists>u. used_list used ct p = Inr u \<and> fst out \<notin> set u \<and> used_list used' ct p = Inr (u @ [fst out])"
    if g: "generate_single_image render tmpl md rnd_r ct p cap used allow = Inr (out, used')"
    for rnd_r cap used allow out used'
  proof -
    from g obtain pool where pool: "get_available_images md ct p used allow = Inr pool" and ne: "pool \<noteq> []"
      by (auto simp: generate_single_image_def split: sum.splits if_splits)
    define sel where "sel = pool ! (rnd_r mod length pool)"
    from ne have selin: "sel \<in> set pool" by (simp add: sel_def)
    from g pool ne sp have rec: "record_used used ct p sel = Inr used'" and out: "fst out = sel"
      by (auto simp: generate_single_image_def Let_def sel_def split: sum.splits if_splits)
    from av[OF pool] obtain m u where u: "used_list used ct p = Inr u" and p: "pool = filter (\<lambda>i. i \<notin> set u) m"
      by blast
    from selin p have "sel \<notin> set u" by auto
    moreover from record_used_result[OF rec] u have "used_list used' ct p = Inr (u @ [sel])" by auto
    ultimately show ?thesis using u out by simp
  qed
  have B: "x \<notin> set pool"
    if "used_list used ct p = Inr u" "x \<in> set u" "get_available_images md ct p used allow = Inr pool"
    for used allow pool u x
    using av[OF that(3)] that(1,2) by auto
  show ?thesis
    apply (intro conjI allI impI)
    subgoal for rnd_r cap used allow out used' by (rule A)
    subgoal for used allow pool u x by (rule B)
    done
qed

lemma pick_two: "[a, b] ! (r mod Suc (Suc 0)) = (if r mod 2 = 0 then a else b)"
proof -
  have "r mod 2 = 0 \<or> r mod 2 = 1" by arith
  then show ?thesis by (auto simp: numeral_2_eq_2)
qed

text \<open>
  What holds when the product cell of the slot is the declared name itself. Take a
  content type and a product of it with \<^verbatim>\<open>prevent_duplicates\<close>, written without
  surrounding blanks and not the wildcard, for which exactly the two images \<open>a\<close> and
  \<open>b\<close> are eligible; let the settings of both resolve and the renderer accept them.
  Then
  \<^item> an image selected for the pairing was not in the pairing's used list, is appended
    to it, and no pool built later for the pairing from a table whose list holds it
    contains it;
  \<^item> a post with three slots of the pairing ends in the pool-exhaustion error at the
    third selection, in every variation count above zero;
  \<^item> three posts with one slot each all succeed in one variation, each post choosing
    between both images by its own draw alone, so every combination of choices occurs
    for some draws.
\<close>

lemma unpadded_slot_duplicate_prevention:
  assumes st: "map_of (struct md) ct = Some st"
    and ps: "map_of (products md) ct = Some ps"
    and q: "find (\<lambda>q. name q = p) ps = Some q" and pd: "prevent_duplicates q"
    and sp: "strip p = p" and na: "p \<noteq> ''all''"
    and elig: "matching_images md (folder_images st) p = Inr [a, b]" and ab: "a \<noteq> b"
    and ctin: "ct \<in> set (content_types md)" and init: "init_used md = Inr used0"
    and sa: "get_image_settings tmpl md ct p a = Inr sa"
    and sb: "get_image_settings tmpl md ct p b = Inr sb"
    and rend: "\<forall>cap. render sa a cap \<and> render sb b cap"
    and hs3: "headers_map hs3 = Inr [ct, ct, ct]" and hs1: "headers_map hs1 = Inr [ct]"
    and caps: "t1 \<noteq> []" "t2 \<noteq> []" "t3 \<noteq> []"
  shows "(\<forall>rnd_r cap used allow out used'.
            generate_single_image render tmpl md rnd_r ct p cap used allow = Inr (out, used') \<longrightarrow>
            (\<exists>u. used_list used ct p = Inr u \<and> fst out \<notin> set u \<and> used_list used' ct p = Inr (u @ [fst out])))
       \<and> (\<forall>used allow pool u x. used_list used ct p = Inr u \<longrightarrow> x \<in> set u \<longrightarrow>
            get_available_images md ct p used allow = Inr pool \<longrightarrow> x \<notin> set pool)
       \<and> (\<forall>rnd n allow.
            generate render tmpl md \<lparr>headers = hs3, caption_rows = [[p, t1, p, t2, p, t3]]\<rparr> rnd (Suc n) allow
              = Inl (NoAvailableImages ct p))
       \<and> (\<forall>rnd allow.
            generate render tmpl md \<lparr>headers = hs1, caption_rows = [[p, t1], [p, t2], [p, t3]]\<rparr> rnd 1 allow
              = Inr [[[(if rnd 0 mod 2 = 0 then (a, sa, t1) else (b, sb, t1))],
                      [(if rnd 1 mod 2 = 0 then (a, sa, t2) else (b, sb, t2))],
                      [(if rnd 2 mod 2 = 0 then (a, sa, t3) else (b, sb, t3))]]])
       \<and> (\<forall>x1 x2 x3 allow. x1 \<in> {a, b} \<and> x2 \<in> {a, b} \<and> x3 \<in> {a, b} \<longrightarrow>
            (\<exists>rnd res.
               generate render tmpl md \<lparr>headers = hs1, caption_rows = [[p, t1], [p, t2], [p, t3]]\<rparr> rnd 1 allow
                 = Inr res
               \<and> map (map (map fst)) res = [[[x1], [x2], [x3]]]))"
proof -
  from find_name[OF q] have qin: "q \<in> set ps" and qn: "name q = p" by auto
  have should: "should_prevent_duplicates md ct p = Inr True"
    using ps q pd sp by (simp add: should_prevent_duplicates_def)
  note RE = recorded_and_excluded[OF should sp na, of render tmpl]
  have u0: "used_list used0 ct p = Inr []"
    using init ctin ps qin qn by (intro init_used_list[where ps = ps]) auto
  have avail: "get_available_images md ct p used allow = Inr (filter (\<lambda>i. i \<notin> set u) [a, b])"
    if "used_list used ct p = Inr u" for used allow u
    using available_concrete[OF st ps q pd sp na elig that] .
  have first: "\<exists>used'. generate_single_image render tmpl md r ct p cap used allow
                  = Inr ((if r mod 2 = 0 then (a, sa, cap) else (b, sb, cap)), used')
                \<and> used_list used' ct p = Inr [if r mod 2 = 0 then a else b]"
    if u: "used_list used ct p = Inr []" for used r cap allow
  proof -
    from record_used_list[OF u, of "if r mod 2 = 0 then a else b"] obtain used' where
      rec: "record_used used ct p (if r mod 2 = 0 then a else b) = Inr used'"
      and u': "used_list used' ct p = Inr [if r mod 2 = 0 then a else b]" by auto
    have "generate_single_image render tmpl md r ct p cap used allow
            = Inr ((if r mod 2 = 0 then (a, sa, cap) else (b, sb, cap)), used')"
      using rec sa sb rend
      by (simp add: generate_single_image_def avail[OF u] should pick_two Let_def)
    with u' show ?thesis by blast
  qed
  have second: "\<exists>used'. generate_single_image render tmpl md r ct p cap used allow
                  = Inr ((if x = a then (b, sb, cap) else (a, sa, cap)), used')
                \<and> used_list used' ct p = Inr [x, if x = a then b else a]"
    if u: "used_list used ct p = Inr [x]" and x: "x = a \<or> x = b" for used r cap allow x
  proof -
    from record_used_list[OF u, of "if x = a then b else a"] obtain used' where
      rec: "record_used used ct p (if x = a then b else a) = Inr used'"
      and u': "used_list used' ct p = Inr [x, if x = a then b else a]" by auto
    have "generate_single_image render tmpl md r ct p cap used allow
            = Inr ((if x = a then (b, sb, cap) else (a, sa, cap)), used')"
      using rec sa sb rend x ab
      by (auto simp: generate_single_image_def avail[OF u] should)
    with u' show ?thesis by blast
  qed
  have third: "generate_single_image render tmpl md r ct p cap used allow = Inl (NoAvailableImages ct p)"
    if u: "used_list used ct p = Inr [x, y]" and xy: "{x, y} = {a, b}" for used r cap allow x y
  proof -
    from xy have "filter (\<lambda>i. i \<notin> set [x, y]) [a, b] = []" by auto
    then show ?thesis by (simp add: generate_single_image_def avail[OF u])
  qed
  have B: "generate render tmpl md \<lparr>headers = hs3, caption_rows = [[p, t1, p, t2, p, t3]]\<rparr> rnd (Suc n) allow
              = Inl (NoAvailableImages ct p)" for rnd n allow
  proof -
    define x where "x = (if rnd 0 mod 2 = 0 then a else b)"
    have x: "x = a \<or> x = b" by (simp add: x_def)
    from first[OF u0, of "rnd 0" t1 allow] obtain used1 where
      g1: "generate_single_image render tmpl md (rnd 0) ct p t1 used0 allow
             = Inr ((if rnd 0 mod 2 = 0 then (a, sa, t1) else (b, sb, t1)), used1)"
      and u1: "used_list used1 ct p = Inr [x]" by (auto simp: x_def)
    from second[OF u1 x, of "rnd (Suc 0)" t2 allow] obtain used2 where
      g2: "generate_single_image render tmpl md (rnd (Suc 0)) ct p t2 used1 allow
             = Inr ((if x = a then (b, sb, t2) else (a, sa, t2)), used2)"
      and u2: "used_list used2 ct p = Inr [x, if x = a then b else a]" by auto
    from x have "{x, if x = a then b else a} = {a, b}" by auto
    from third[OF u2 this, of "rnd (Suc (Suc 0))" t3 allow]
    have g3: "generate_single_image render tmpl md (rnd (Suc (Suc 0))) ct p t3 used2 allow
                = Inl (NoAvailableImages ct p)" .
    have "process_slots render tmpl md allow rnd [ct, ct, ct] 1 used0 0 [(p, t1), (p, t2), (p, t3)]
            = Inl (NoAvailableImages ct p)"
      using caps by (simp add: g1 g2 g3)
    then show ?thesis by (simp add: generate_def hs3 init)
  qed
  have C: "generate render tmpl md \<lparr>headers = hs1, caption_rows = [[p, t1], [p, t2], [p, t3]]\<rparr> rnd 1 allow
              = Inr [[[(if rnd 0 mod 2 = 0 then (a, sa, t1) else (b, sb, t1))],
                      [(if rnd 1 mod 2 = 0 then (a, sa, t2) else (b, sb, t2))],
                      [(if rnd 2 mod 2 = 0 then (a, sa, t3) else (b, sb, t3))]]]" for rnd allow
  proof -
    have post: "process_slots render tmpl md allow rnd [ct] 1 used0 k [(p, cap)]
                  = Inr ([(if rnd k mod 2 = 0 then (a, sa, cap) else (b, sb, cap))], Suc k)"
      if "cap \<noteq> []" for k cap
    proof -
      from first[OF u0, of "rnd k" cap allow] obtain used1 where
        "generate_single_image render tmpl md (rnd k) ct p cap used0 allow
             = Inr ((if rnd k mod 2 = 0 then (a, sa, cap) else (b, sb, cap)), used1)" by auto
      with that show ?thesis by simp
    qed
    have pp: "process_posts render tmpl md allow rnd [ct] k ([p, cap] # rows)
                = (case process_posts render tmpl md allow rnd [ct] (Suc k) rows of
                     Inl e \<Rightarrow> Inl e
                   | Inr (posts, k2) \<Rightarrow>
                       Inr ([(if rnd k mod 2 = 0 then (a, sa, cap) else (b, sb, cap))] # posts, k2))"
      if "cap \<noteq> []" for k cap rows
      using post[OF that, of k] by (simp add: init del: process_slots.simps)
    have e2: "Suc (Suc 0) = 2" by simp
    have "process_posts render tmpl md allow rnd [ct] 0 [[p, t1], [p, t2], [p, t3]]
            = Inr ([[(if rnd 0 mod 2 = 0 then (a, sa, t1) else (b, sb, t1))],
                    [(if rnd 1 mod 2 = 0 then (a, sa, t2) else (b, sb, t2))],
                    [(if rnd 2 mod 2 = 0 then (a, sa, t3) else (b, sb, t3))]], 3)"
      by (simp add: pp[OF caps(1)] pp[OF caps(2)] pp[OF caps(3)] e2 del: process_posts.simps(2))
    then show ?thesis by (simp add: generate_def hs1)
  qed
  have D: "\<exists>rnd res.
               generate render tmpl md \<lparr>headers = hs1, caption_rows = [[p, t1], [p, t2], [p, t3]]\<rparr> rnd 1 allow
                 = Inr res
               \<and> map (map (map fst)) res = [[[x1], [x2], [x3]]]"
    if "x1 \<in> {a, b} \<and> x2 \<in> {a, b} \<and> x3 \<in> {a, b}" for x1 x2 x3 allow
  proof -
    define rnd :: "nat \<Rightarrow> nat" where "rnd k = (if [x1, x2, x3] ! k = a then 0 else 1)" for k
    have r: "rnd 0 mod 2 = 0 \<longleftrightarrow> x1 = a" "rnd 1 mod 2 = 0 \<longleftrightarrow> x2 = a" "rnd 2 mod 2 = 0 \<longleftrightarrow> x3 = a"
      by (simp_all add: rnd_def numeral_2_eq_2)
    show ?thesis
      apply (rule exI[of _ rnd])
      apply (subst C)
      using that r by auto
  qed
  show ?thesis
    apply (intro conjI)
    subgoal using RE by blast
    subgoal using RE by blast
    subgoal using B by blast
    subgoal using C by blast
    subgoal using D by blast
    done
qed

lemma unpadded_slot_duplicate_prevention_example:
  "generate all_ok (Some ''T'') demo_store
     \<lparr>headers = [''product_hook'', ''hook'', ''product_hook'', ''hook'', ''product_hook'', ''hook''],
      caption_rows = [[''mag'', ''x'', ''mag'', ''y'', ''mag'', ''z'']]\<rparr> (\<lambda>k. k) (Suc 0) False
     = Inl (NoAvailableImages ''hook'' ''mag'')
   \<and> generate all_ok (Some ''T'') demo_store
     \<lparr>headers = [''product_hook'', ''hook''],
      caption_rows = [[''mag'', ''x''], [''mag'', ''y''], [''mag'', ''z'']]\<rparr> (\<lambda>k. k) 1 False
     = Inr [[[(''a.png'', ''T'', ''x'')], [(''b.png'', ''T'', ''y'')], [(''a.png'', ''T'', ''z'')]]]"
proof -
  let ?mag = "\<lparr>name = ''mag'', prevent_duplicates = True, min_occurrences = 2, current_count = Some 2\<rparr>"
  have st: "map_of (struct demo_store) ''hook''
              = Some \<lparr>path = [''base'', ''hook''], folder_images = [''a.png'', ''b.png'', ''c.png'']\<rparr>"
    by (simp add: demo_store_def)
  have ps: "map_of (products demo_store) ''hook'' = Some (snd (hd demo_products))"
    by (simp add: demo_store_def demo_products_def)
  have q: "find (\<lambda>q. name q = ''mag'') (snd (hd demo_products)) = Some ?mag"
    by (simp add: demo_products_def)
  have pd: "prevent_duplicates ?mag" by simp
  have sp: "strip ''mag'' = ''mag''" by (simp add: strip_def is_space_def)
  have na: "''mag'' \<noteq> ''all''" by simp
  have elig: "matching_images demo_store
                (folder_images \<lparr>path = [''base'', ''hook''], folder_images = [''a.png'', ''b.png'', ''c.png'']\<rparr>)
                ''mag'' = Inr [''a.png'', ''b.png'']"
    by (simp add: demo_store_def hook_image_def)
  have ab: "''a.png'' \<noteq> ''b.png''" by simp
  have ctin: "''hook'' \<in> set (content_types demo_store)" by (simp add: demo_store_def)
  have init: "init_used demo_store
                = Inr [(''hook'', [(''mag'', []), (''zinc'', [])]), (''cta'', [(''zinc'', [])])]"
    by (simp add: init_used_def demo_store_def demo_products_def)
  have n: "path_name ''a.png'' = ''a.png''" "path_name ''b.png'' = ''b.png''"
    by (simp_all add: path_name_def)
  have sa: "get_image_settings (Some ''T'') demo_store ''hook'' ''mag'' ''a.png'' = Inr ''T''"
    and sb: "get_image_settings (Some ''T'') demo_store ''hook'' ''mag'' ''b.png'' = Inr ''T''"
    by (simp_all add: get_image_settings_def resolve_settings_def n demo_store_def hook_image_def)
  have rend: "\<forall>cap. all_ok ''T'' ''a.png'' cap \<and> all_ok ''T'' ''b.png'' cap"
    by (simp add: all_ok_def)
  have hs3: "headers_map [''product_hook'', ''hook'', ''product_hook'', ''hook'', ''product_hook'', ''hook'']
               = Inr [''hook'', ''hook'', ''hook'']"
    by (simp add: headers_map_def numeral_3_eq_3)
  have hs1: "headers_map [''product_hook'', ''hook''] = Inr [''hook'']"
    by (simp add: headers_map_def)
  have caps: "''x'' \<noteq> []" "''y'' \<noteq> []" "''z'' \<noteq> []" by simp_all
  show ?thesis
    using unpadded_slot_duplicate_prevention[where render = all_ok, OF st ps q pd sp na elig ab ctin init sa sb rend hs3 hs1 caps]
    by simp
qed

text \<open>
  C2 (defect in the code). A product cell written with a trailing blank still names the
  product: \<^verbatim>\<open>_get_available_images\<close> and \<^verbatim>\<open>_should_prevent_duplicates\<close> strip
  the cell, find the product \<^verbatim>\<open>mag\<close> with its two eligible images, and find that
  duplicates are to be prevented. The selected image is then recorded under the cell as
  written, which is no key of the table of used images: the selection is not recorded,
  and the generation ends in a KeyError at the first selection, for one slot, for three
  posts with one slot each and for one post with three slots alike.
\<close>

theorem padded_slot_is_not_recorded:
  "init_used demo_store = Inr [(''hook'', [(''mag'', []), (''zinc'', [])]), (''cta'', [(''zinc'', [])])]
   \<and> get_available_images demo_store ''hook'' ''mag ''
         [(''hook'', [(''mag'', []), (''zinc'', [])]), (''cta'', [(''zinc'', [])])] False
       = Inr [''a.png'', ''b.png'']
   \<and> should_prevent_duplicates demo_store ''hook'' ''mag '' = Inr True
   \<and> record_used [(''hook'', [(''mag'', []), (''zinc'', [])]), (''cta'', [(''zinc'', [])])]
         ''hook'' ''mag '' ''a.png''
       = Inl (KeyError ''mag '')
   \<and> generate all_ok (Some ''T'') demo_store
         \<lparr>headers = [''product_hook'', ''hook''], caption_rows = [[''mag '', ''x'']]\<rparr> (\<lambda>k. k) 1 False
       = Inl (KeyError ''mag '')
   \<and> generate all_ok (Some ''T'') demo_store
         \<lparr>headers = [''product_hook'', ''hook''],
          caption_rows = [[''mag '', ''x''], [''mag '', ''y''], [''mag '', ''z'']]\<rparr> (\<lambda>k. k) 1 False
       = Inl (KeyError ''mag '')
   \<and> generate all_ok (Some ''T'') demo_store
         \<lparr>headers = [''product_hook'', ''hook'', ''product_hook'', ''hook'', ''product_hook'', ''hook''],
          caption_rows = [[''mag '', ''x'', ''mag '', ''y'', ''mag '', ''z'']]\<rparr> (\<lambda>k. k) 1 False
       = Inl (KeyError ''mag '')"
  by code_simp

section \<open>Validator: the key order comes first\<close>

text \<open>
  C4. When the keys of the payload are not in the required order, \<open>validate\<close> returns
  \<^verbatim>\<open>False\<close> with the key-order error as its only error, no warning, and the store
  untouched, whatever the mode, the environment and the expected content types and
  products are: no other check has run. \<open>load\<close> then returns \<^verbatim>\<open>False\<close>, having
  collected that one error and attached no editor.
\<close>

theorem validate_key_order_short_circuits:
  assumes "keys md \<noteq> REQUIRED_KEYS_ORDER"
  shows "validate env strict st0 md cts prods =
           Inr (False,
                \<lparr>errors = [Msg ''Metadata keys are not in correct order'' [L REQUIRED_KEYS_ORDER]],
                 warnings = [], seen_warnings = {}\<rparr>, md)
         \<and> load env (Some md) generated self_strict h cts prods sarg =
             (False, h\<lparr>h_data := Some md,
                       h_errors := h_errors h @ [Msg ''Metadata keys are not in correct order'' [L REQUIRED_KEYS_ORDER]]\<rparr>)"
  using assms by (simp add: validate_def load_def add_error_def)

theorem validate_key_order_short_circuits_witness:
  "validate env_ok True fresh misordered_store [''hook'', ''cta''] demo_expected =
     Inr (False,
          \<lparr>errors = [Msg ''Metadata keys are not in correct order'' [L REQUIRED_KEYS_ORDER]],
           warnings = [], seen_warnings = {}\<rparr>, misordered_store)
   \<and> validate env_ok False fresh misordered_store [''hook'', ''cta''] demo_expected =
     Inr (False,
          \<lparr>errors = [Msg ''Metadata keys are not in correct order'' [L REQUIRED_KEYS_ORDER]],
           warnings = [], seen_warnings = {}\<rparr>, misordered_store)"
proof -
  have k: "keys misordered_store \<noteq> REQUIRED_KEYS_ORDER"
    by (simp add: misordered_store_def REQUIRED_KEYS_ORDER_def)
  show ?thesis
    using validate_key_order_short_circuits[OF k, of env_ok True fresh "[''hook'', ''cta'']" demo_expected]
          validate_key_order_short_circuits[OF k, of env_ok False fresh "[''hook'', ''cta'']" demo_expected]
    by simp
qed

section \<open>Validator: recomputed counts\<close>

lemma tally_get_update:
  "tally_get (AList.update p v m) n = (if n = p then v else tally_get m n)"
  by (simp add: tally_get_def update_conv')

lemma tally_add_lookup:
  assumes "tally_add pc ct p = Inr pc'"
  shows "tally_lookup pc' c n = tally_lookup pc c n + (if c = ct \<and> n = p then 1 else 0)"
proof -
  from assms obtain m where m: "map_of pc ct = Some m"
    and pc': "pc' = AList.update ct (AList.update p (tally_get m p + 1) m) pc"
    by (auto simp: tally_add_def split: option.splits)
  show ?thesis
  proof (cases "c = ct")
    case True
    then show ?thesis by (simp add: tally_lookup_def pc' m update_conv' tally_get_update)
  next
    case False
    then show ?thesis by (simp add: tally_lookup_def pc' update_conv')
  qed
qed

lemma count_pass_lookup:
  "count_pass pc imgs = Inr pc' \<Longrightarrow>
   tally_lookup pc' c n =
     tally_lookup pc c n +
     int (length (filter (\<lambda>(k, im). content_type im = c \<and> truthy (product im)
                            \<and> product im \<noteq> Some ''all'' \<and> product im = Some n) imgs))"
proof (induction imgs arbitrary: pc)
  case Nil
  then show ?case by simp
next
  case (Cons x xs)
  obtain k im where x: "x = (k, im)" by (cases x)
  show ?case
  proof (cases "truthy (product im) \<and> product im \<noteq> Some ''all''")
    case True
    then obtain p where p: "product im = Some p" by (cases "product im") auto
    from Cons.prems x True obtain pc1 where
      a: "tally_add pc (content_type im) p = Inr pc1" and b: "count_pass pc1 xs = Inr pc'"
      by (auto simp: p split: sum.splits)
    from Cons.IH[OF b] tally_add_lookup[OF a, of c n] x True p show ?thesis by auto
  next
    case False
    with Cons.prems x have "count_pass pc xs = Inr pc'" by auto
    from Cons.IH[OF this] x False show ?thesis by auto
  qed
qed

lemma tally_lookup_empty: "tally_lookup (empty_tally md) c n = 0"
  by (auto simp: tally_lookup_def empty_tally_def tally_get_def map_of_map split: option.splits prod.splits
           dest!: map_of_SomeD)

lemma recount_products_fst:
  "fst (recount_products counts allc ct st qs) =
     map (\<lambda>q. q\<lparr>current_count := Some (tally_get counts (name q) + allc)\<rparr>) qs"
  by (induction qs arbitrary: st) (simp_all add: Let_def split_beta)

lemma recount_fst:
  "fst (recount pc md st l) =
     map (\<lambda>(ct, ps). (ct, map (\<lambda>q. q\<lparr>current_count :=
            Some (tally_lookup pc ct (name q) + all_images_count md ct)\<rparr>) ps)) l"
proof (induction l arbitrary: st)
  case Nil
  then show ?case by simp
next
  case (Cons x xs)
  obtain ct ps where x: "x = (ct, ps)" by (cases x)
  have g: "tally_get (case map_of pc ct of None \<Rightarrow> [] | Some m \<Rightarrow> m) n = tally_lookup pc ct n" for n
    by (simp add: tally_lookup_def tally_get_def split: option.splits)
  obtain ps' st' where r: "recount_products (case map_of pc ct of None \<Rightarrow> [] | Some m \<Rightarrow> m)
       (all_images_count md ct) ct st ps = (ps', st')" by force
  from recount_products_fst[of "case map_of pc ct of None \<Rightarrow> [] | Some m \<Rightarrow> m" "all_images_count md ct" ct st ps] r
  have ps': "ps' = map (\<lambda>q. q\<lparr>current_count := Some (tally_lookup pc ct (name q) + all_images_count md ct)\<rparr>) ps"
    by (simp add: g)
  from Cons.IH[of st'] show ?case
    by (simp add: x r ps' split_beta)
qed

lemma split_count:
  "int (length (filter (\<lambda>(k, im). content_type im = c \<and> truthy (product im)
                            \<and> product im \<noteq> Some ''all'' \<and> product im = Some n) imgs))
   + int (length (filter (\<lambda>(k, im). content_type im = c \<and> product im = Some ''all'') imgs))
   = int (length (filter (\<lambda>(k, im). content_type im = c \<and> truthy (product im) \<and>
                             (product im = Some n \<or> product im = Some ''all'')) imgs))"
  by (induction imgs) auto

lemma validate_product_counts_result:
  assumes "validate_product_counts st md = Inr (ok, st', md')"
  shows "md' = md\<lparr>products :=
           map (\<lambda>(ct, ps). (ct, map (\<lambda>q. q\<lparr>current_count := Some (counted md ct (name q))\<rparr>) ps))
             (products md)\<rparr>"
proof -
  from assms obtain pc where pc: "count_pass (empty_tally md) (images md) = Inr pc"
    and r: "md' = md\<lparr>products := fst (recount pc md st (products md))\<rparr>"
    by (auto simp: validate_product_counts_def split: sum.splits prod.splits)
  have "tally_lookup pc c n + all_images_count md c = counted md c n" for c n
    using count_pass_lookup[OF pc, of c n] split_count[of c n "images md"]
    by (simp add: tally_lookup_empty all_images_count_def counted_def)
  then show ?thesis by (simp add: r recount_fst)
qed

lemma run_validators_last:
  assumes "\<forall>v \<in> set vs. \<forall>s m b s' m'. v s m = Inr (b, s', m') \<longrightarrow> m' = m"
    and "run_validators strict (vs @ [w]) valid st md = Inr (True, st', md')"
  shows "\<exists>st1 st2 ok. w st1 md = Inr (ok, st2, md')"
  using assms
proof (induction vs arbitrary: valid st)
  case Nil
  from Nil(2) obtain ok st2 where "w st md = Inr (ok, st2, md')"
    by (auto split: sum.splits if_splits)
  then show ?case by blast
next
  case (Cons v vs)
  from Cons.prems(2) obtain ok st1 md1 where v: "v st md = Inr (ok, st1, md1)"
    by (auto split: sum.splits)
  with Cons.prems(1) have md1: "md1 = md" by auto
  from Cons.prems(2) v md1 obtain valid' where
    r: "run_validators strict (vs @ [w]) valid' st1 md = Inr (True, st', md')"
    by (auto split: if_splits)
  from Cons.prems(1) have "\<forall>v \<in> set vs. \<forall>s m b s' m'. v s m = Inr (b, s', m') \<longrightarrow> m' = m"
    by simp
  from Cons.IH[OF this r] show ?case .
qed

lemma keep_store_same: "keep_store v st md = Inr (ok, st', md') \<Longrightarrow> md' = md"
  by (auto simp: keep_store_def split: sum.splits)

lemma count_split_list:
  assumes "n \<noteq> []" "n \<noteq> ''all''"
  shows "int (length (filter (\<lambda>(k, im). content_type im = ct \<and> truthy (product im) \<and>
                             (product im = Some n \<or> product im = Some ''all'')) imgs))
         = int (length (filter (\<lambda>(k, im). content_type im = ct \<and> product im = Some n) imgs))
           + int (length (filter (\<lambda>(k, im). content_type im = ct \<and> product im = Some ''all'') imgs))"
  using assms by (induction imgs) auto

lemma counted_split:
  assumes "n \<noteq> []" "n \<noteq> ''all''"
  shows "counted md ct n =
           int (length (filter (\<lambda>(k, im). content_type im = ct \<and> product im = Some n) (images md)))
           + int (length (filter (\<lambda>(k, im). content_type im = ct \<and> product im = Some ''all'') (images md)))"
  unfolding counted_def using assms by (rule count_split_list)

text \<open>
  C1. When \<open>validate\<close> succeeds, the store it leaves is the store it was given with the
  count of every product of every content type replaced, whatever was stored, by the
  number of images of that content type that are assigned that product or the wildcard
  \<^verbatim>\<open>all\<close>, each image counted once. For a product that is not itself named
  \<^verbatim>\<open>all\<close> (and has a name) this is the number of images assigned exactly that
  product plus the number of images assigned \<^verbatim>\<open>all\<close>.
\<close>

theorem validate_recomputes_counts:
  assumes "validate env strict st0 md cts prods = Inr (True, st, md')"
  shows "md' = md\<lparr>products :=
           map (\<lambda>(ct, ps). (ct, map (\<lambda>q. q\<lparr>current_count :=
                  Some (int (length (filter (\<lambda>(k, im). content_type im = ct \<and> truthy (product im) \<and>
                               (product im = Some (name q) \<or> product im = Some ''all'')) (images md))))\<rparr>) ps))
             (products md)\<rparr>
       \<and> (\<forall>ct ps q. (ct, ps) \<in> set (products md') \<longrightarrow> q \<in> set ps \<longrightarrow> name q \<noteq> [] \<longrightarrow> name q \<noteq> ''all'' \<longrightarrow>
            current_count q =
              Some (int (length (filter (\<lambda>(k, im). content_type im = ct \<and> product im = Some (name q)) (images md')))
                    + int (length (filter (\<lambda>(k, im). content_type im = ct \<and> product im = Some ''all'') (images md')))))"
proof -
  let ?vs = "[keep_store (\<lambda>st md. validate_content_types st md cts),
      keep_store (\<lambda>st md. validate_products env strict st md prods),
      keep_store (validate_structure env),
      keep_store (validate_images env strict),
      keep_store (validate_untagged env strict),
      keep_store (validate_settings env)]"
  from assms have k: "keys md = REQUIRED_KEYS_ORDER"
    by (auto simp: validate_def Let_def split: if_splits)
  with assms have
    "run_validators strict (?vs @ [validate_product_counts]) True
       \<lparr>errors = [], warnings = [], seen_warnings = {}\<rparr> md = Inr (True, st, md')"
    by (simp add: validate_def validators_def)
  moreover have "\<forall>v \<in> set ?vs. \<forall>s m b s' m'. v s m = Inr (b, s', m') \<longrightarrow> m' = m"
    by (auto dest: keep_store_same)
  ultimately obtain st1 st2 ok where
    "validate_product_counts st1 md = Inr (ok, st2, md')"
    using run_validators_last by blast
  then have md': "md' = md\<lparr>products :=
           map (\<lambda>(ct, ps). (ct, map (\<lambda>q. q\<lparr>current_count := Some (counted md ct (name q))\<rparr>) ps))
             (products md)\<rparr>"
    by (rule validate_product_counts_result)
  have 2: "current_count q = Some (int (length (filter (\<lambda>(k, im). content_type im = ct \<and> product im = Some (name q)) (images md')))
                    + int (length (filter (\<lambda>(k, im). content_type im = ct \<and> product im = Some ''all'') (images md'))))"
    if "(ct, ps) \<in> set (products md')" "q \<in> set ps" "name q \<noteq> []" "name q \<noteq> ''all''" for ct ps q
  proof -
    from that(1,2) md' obtain q0 where "q = q0\<lparr>current_count := Some (counted md ct (name q0))\<rparr>"
      by auto
    then have "current_count q = Some (counted md ct (name q))" by simp
    with counted_split[OF that(3,4), of md ct] md' show ?thesis by simp
  qed
  from md' have 1: "md' = md\<lparr>products :=
           map (\<lambda>(ct, ps). (ct, map (\<lambda>q. q\<lparr>current_count :=
                  Some (int (length (filter (\<lambda>(k, im). content_type im = ct \<and> truthy (product im) \<and>
                               (product im = Some (name q) \<or> product im = Some ''all'')) (images md))))\<rparr>) ps))
             (products md)\<rparr>"
    by (simp add: counted_def)
  from 1 2 show ?thesis by blast
qed

lemma stale_store_validates:
  "validate env_ok False fresh stale_store [''hook'', ''cta''] demo_expected
     = Inr (True,
            \<lparr>errors = [],
             warnings = [Msg ''Incorrect count''
                           [T ''Incorrect count for '', S ''hook'', T ''/'', S ''mag'',
                            T '': metadata shows '', I 7, T '' but found '', I 3, T '' images''],
                         Msg ''Incorrect count''
                           [T ''Incorrect count for '', S ''hook'', T ''/'', S ''zinc'',
                            T '': metadata shows '', I 0, T '' but found '', I 1, T '' images'']],
             seen_warnings = {''Incorrect count for hook/zinc: metadata shows 0 but found 1 images'',
                              ''Incorrect count for hook/mag: metadata shows 7 but found 3 images''}\<rparr>,
            stale_store\<lparr>products :=
              [(''hook'', [\<lparr>name = ''mag'', prevent_duplicates = True, min_occurrences = 2, current_count = Some 3\<rparr>,
                           \<lparr>name = ''zinc'', prevent_duplicates = False, min_occurrences = 0, current_count = Some 1\<rparr>]),
               (''cta'', [\<lparr>name = ''zinc'', prevent_duplicates = False, min_occurrences = 0, current_count = Some 0\<rparr>])]\<rparr>)"
  by code_simp

theorem validate_recomputes_counts_witness:
  "validate env_ok False fresh stale_store [''hook'', ''cta''] demo_expected
     = Inr (True,
            \<lparr>errors = [],
             warnings = [Msg ''Incorrect count''
                           [T ''Incorrect count for '', S ''hook'', T ''/'', S ''mag'',
                            T '': metadata shows '', I 7, T '' but found '', I 3, T '' images''],
                         Msg ''Incorrect count''
                           [T ''Incorrect count for '', S ''hook'', T ''/'', S ''zinc'',
                            T '': metadata shows '', I 0, T '' but found '', I 1, T '' images'']],
             seen_warnings = {''Incorrect count for hook/zinc: metadata shows 0 but found 1 images'',
                              ''Incorrect count for hook/mag: metadata shows 7 but found 3 images''}\<rparr>,
            stale_store\<lparr>products :=
              [(''hook'', [\<lparr>name = ''mag'', prevent_duplicates = True, min_occurrences = 2, current_count = Some 3\<rparr>,
                           \<lparr>name = ''zinc'', prevent_duplicates = False, min_occurrences = 0, current_count = Some 1\<rparr>]),
               (''cta'', [\<lparr>name = ''zinc'', prevent_duplicates = False, min_occurrences = 0, current_count = Some 0\<rparr>])]\<rparr>)
   \<and> int (length (filter (\<lambda>(k, im). content_type im = ''hook'' \<and> product im = Some ''mag'') (images stale_store)))
     + int (length (filter (\<lambda>(k, im). content_type im = ''hook'' \<and> product im = Some ''all'') (images stale_store)))
     = 3"
proof -
  let ?mag = "\<lparr>name = ''mag'', prevent_duplicates = True, min_occurrences = 2, current_count = Some 3\<rparr>"
  let ?zinc = "\<lparr>name = ''zinc'', prevent_duplicates = False, min_occurrences = 0, current_count = Some 1\<rparr>"
  note e = stale_store_validates
  from validate_recomputes_counts[OF e, THEN conjunct2, rule_format, of "''hook''" "[?mag, ?zinc]" ?mag]
  have "current_count ?mag =
          Some (int (length (filter (\<lambda>(k, im). content_type im = ''hook'' \<and> product im = Some ''mag'') (images stale_store)))
                + int (length (filter (\<lambda>(k, im). content_type im = ''hook'' \<and> product im = Some ''all'') (images stale_store))))"
    by simp
  then have "int (length (filter (\<lambda>(k, im). content_type im = ''hook'' \<and> product im = Some ''mag'') (images stale_store)))
     + int (length (filter (\<lambda>(k, im). content_type im = ''hook'' \<and> product im = Some ''all'') (images stale_store)))
     = 3"
    by simp
  with e show ?thesis by simp
qed

section \<open>Validator: warnings are keyed and the lists start empty\<close>

text \<open>
  Every step of the validator keeps the warnings and their keys in step (\<open>keyed\<close>):
  a warning is appended only together with a key not seen before.
\<close>

lemma keyed_add_warning: "keyed st \<Longrightarrow> keyed (add_warning st m k)"
  by (auto simp: keyed_def add_warning_def Let_def)

lemma keyed_add_error: "keyed (add_error st m) = keyed st"
  by (simp add: keyed_def add_error_def)

lemma keyed_errors: "keyed (st\<lparr>errors := es\<rparr>) = keyed st"
  by (simp add: keyed_def)

lemmas keyed_simps = keyed_add_warning keyed_add_error keyed_errors

lemma keyed_fail: "fail st m = Inr (ok, st') \<Longrightarrow> keyed st \<Longrightarrow> keyed st'"
  by (auto simp: fail_def keyed_simps)

lemma keyed_content_types:
  "validate_content_types st md e = Inr (ok, st') \<Longrightarrow> keyed st \<Longrightarrow> keyed st'"
  by (auto simp: validate_content_types_def fail_def keyed_simps split: if_splits)

lemma keyed_check_product_names:
  "check_product_names st ct e qs = Inr (ok, st') \<Longrightarrow> keyed st \<Longrightarrow> keyed st'"
  by (induction qs arbitrary: st) (auto simp: fail_def keyed_simps split: if_splits)

lemma keyed_check_products:
  "check_products st e l = Inr (ok, st') \<Longrightarrow> keyed st \<Longrightarrow> keyed st'"
proof (induction l arbitrary: st)
  case Nil
  then show ?case by simp
next
  case (Cons x xs)
  obtain ct prods where x: "x = (ct, prods)" by (cases x)
  from Cons.prems(1) x obtain names b st1 where
    n: "map_of e ct = Some names" and c: "check_product_names st ct names prods = Inr (b, st1)"
    by (auto split: option.splits sum.splits)
  from keyed_check_product_names[OF c Cons.prems(2)] have k1: "keyed st1" .
  show ?case
  proof (cases b)
    case False
    with Cons.prems(1) x n c k1 show ?thesis by simp
  next
    case True
    with Cons.prems(1) x n c k1 Cons.IH[of st1] show ?thesis
      by (auto simp: fail_def keyed_simps split: if_splits)
  qed
qed

lemma keyed_products_image_pass:
  "products_image_pass strict md pc st l = Inr (pc', st') \<Longrightarrow> keyed st \<Longrightarrow> keyed st'"
proof (induction l arbitrary: pc st)
  case Nil
  then show ?case by simp
next
  case (Cons x xs)
  obtain n im where x: "x = (n, im)" by (cases x)
  show ?case
  proof (cases "truthy (product im)")
    case True
    with Cons.prems(1) x obtain pc1 where "products_image_pass strict md pc1 st xs = Inr (pc', st')"
      by (auto split: sum.splits)
    from Cons.IH[OF this Cons.prems(2)] show ?thesis .
  next
    case False
    with Cons.prems(1) x obtain ps where ps: "map_of (products md) (content_type im) = Some ps"
      by (auto split: option.splits)
    define st1 where "st1 =
      (if strict then add_error st (Msg ''Image has no product assigned'' [S n, L (order_valid (map name ps))])
       else add_warning st (Msg ''Image has no product assigned'' [S n, L (order_valid (map name ps))])
              (Some (''missing_product_'' @ n)))"
    from Cons.prems(2) have k: "keyed st1" by (simp add: st1_def keyed_simps)
    from Cons.prems(1) x False ps have "products_image_pass strict md pc st1 xs = Inr (pc', st')"
      by (simp add: st1_def Let_def)
    from Cons.IH[OF this k] show ?thesis .
  qed
qed

lemma keyed_check_min_prods:
  "check_min_prods strict counts ct st qs = (ok, st') \<Longrightarrow> keyed st \<Longrightarrow> keyed st'"
  by (induction qs arbitrary: st) (auto simp: Let_def keyed_simps split: if_splits)

lemma keyed_check_min:
  "check_min strict pc st l = Inr (ok, st') \<Longrightarrow> keyed st \<Longrightarrow> keyed st'"
proof (induction l arbitrary: st)
  case Nil
  then show ?case by simp
next
  case (Cons x xs)
  obtain ct prods where x: "x = (ct, prods)" by (cases x)
  from Cons.prems(1) x obtain counts b st1 where
    c: "check_min_prods strict counts ct st prods = (b, st1)"
    and r: "(if b then check_min strict pc st1 xs else Inr (False, st1)) = Inr (ok, st')"
    by (auto split: option.splits prod.splits bool.splits)
  from keyed_check_min_prods[OF c Cons.prems(2)] have "keyed st1" .
  with r Cons.IH[of st1] show ?case by (auto split: if_splits)
qed

lemma keyed_validate_products:
  "validate_products env strict st md e = Inr (ok, st') \<Longrightarrow> keyed st \<Longrightarrow> keyed st'"
  by (auto simp: validate_products_def fail_def keyed_simps
           split: if_splits sum.splits prod.splits bool.splits
           dest: keyed_check_products keyed_products_image_pass keyed_check_min)


lemma keyed_check_folder_images:
  "check_folder_images env st pth l = Inr (ok, st') \<Longrightarrow> keyed st \<Longrightarrow> keyed st'"
  by (induction l arbitrary: st) (auto simp: fail_def keyed_simps split: if_splits)

lemma keyed_validate_structure_list:
  "validate_structure_list env st l = Inr (ok, st') \<Longrightarrow> keyed st \<Longrightarrow> keyed st'"
proof (induction l arbitrary: st)
  case Nil
  then show ?case by simp
next
  case (Cons x xs)
  obtain ct info where x: "x = (ct, info)" by (cases x)
  show ?case
  proof (cases "path_exists env (path info)")
    case False
    with Cons.prems x show ?thesis by (auto simp: fail_def keyed_simps)
  next
    case True
    with Cons.prems(1) x obtain b st1 where
      c: "check_folder_images env st (path info) (folder_images info) = Inr (b, st1)"
      and r: "(if b then validate_structure_list env st1 xs else Inr (False, st1)) = Inr (ok, st')"
      by (auto split: sum.splits bool.splits)
    from keyed_check_folder_images[OF c Cons.prems(2)] have "keyed st1" .
    with r Cons.IH[of st1] show ?thesis by (auto split: if_splits)
  qed
qed

lemma keyed_validate_structure:
  "validate_structure env st md = Inr (ok, st') \<Longrightarrow> keyed st \<Longrightarrow> keyed st'"
  unfolding validate_structure_def by (rule keyed_validate_structure_list)

lemma keyed_check_blob:
  "check_blob env st what ctx s = (ok, st') \<Longrightarrow> keyed st \<Longrightarrow> keyed st'"
  by (auto simp: check_blob_def keyed_simps split: option.splits)

lemma keyed_validate_image_product:
  "validate_image_product strict st md n im = Inr (ok, st') \<Longrightarrow> keyed st \<Longrightarrow> keyed st'"
  by (auto simp: validate_image_product_def fail_def Let_def keyed_simps split: option.splits if_splits)

lemma keyed_validate_image_settings:
  assumes "validate_image_settings env strict st md n im = Inr (ok, st')" "keyed st"
  shows "keyed st'"
proof -
  have P: "keyed s'" if "validate_image_product strict s md n im = Inr (ok, s')" "keyed s" for s s'
    using that by (rule keyed_validate_image_product)
  have B: "keyed s'" if "check_blob env st what ctx s = (b, s')" for what ctx s b s'
    using that assms(2) by (rule keyed_check_blob)
  consider (custom) "settings_source im = ''custom''"
    | (content) "settings_source im \<noteq> ''custom''" "settings_source im = ''content''"
    | (product) "settings_source im \<noteq> ''custom''" "settings_source im \<noteq> ''content''"
        "settings_source im = ''product''"
    | (default) "settings_source im \<noteq> ''custom''" "settings_source im \<noteq> ''content''"
        "settings_source im \<noteq> ''product''" "settings_source im = ''default''"
    | (other) "settings_source im \<noteq> ''custom''" "settings_source im \<noteq> ''content''"
        "settings_source im \<noteq> ''product''" "settings_source im \<noteq> ''default''"
    by blast
  then show ?thesis
  proof cases
    case custom
    with assms show ?thesis
      by (auto simp: validate_image_settings_def fail_def Let_def keyed_simps split: if_splits)
  next
    case content
    show ?thesis
    proof (cases "map_of (settings md) (content_type im)")
      case None
      with assms content show ?thesis
        by (auto simp: validate_image_settings_def fail_def keyed_simps)
    next
      case (Some g)
      show ?thesis
      proof (cases "case map_of g ''content'' of None \<Rightarrow> None | Some v \<Rightarrow> v")
        case None
        with assms content Some show ?thesis
          by (auto simp: validate_image_settings_def fail_def keyed_simps split: if_splits
                   intro: P[OF _ keyed_add_warning])
      next
        case (Some cs)
        obtain b s1 where cb: "check_blob env st ''content settings'' [n] cs = (b, s1)" by force
        from B[OF cb] have "keyed s1" .
        with assms content \<open>map_of (settings md) (content_type im) = Some g\<close> Some cb show ?thesis
          by (cases b) (auto simp: validate_image_settings_def intro: P)
      qed
    qed
  next
    case product
    from assms product obtain g where g: "map_of (settings md) (content_type im) = Some g"
      by (auto simp: validate_image_settings_def split: option.splits)
    show ?thesis
    proof (cases "first_group_settings (product im) g")
      case None
      with assms product g show ?thesis
        by (auto simp: validate_image_settings_def fail_def keyed_simps split: if_splits
                 intro: P[OF _ keyed_add_warning])
    next
      case (Some ps)
      obtain b s1 where cb: "check_blob env st ''product settings'' [n] ps = (b, s1)" by force
      from B[OF cb] have "keyed s1" .
      with assms product g Some cb show ?thesis
        by (cases b) (auto simp: validate_image_settings_def intro: P)
    qed
  next
    case default
    with assms show ?thesis
      by (auto simp: validate_image_settings_def fail_def keyed_simps split: if_splits intro: P)
  next
    case other
    with assms show ?thesis
      by (auto simp: validate_image_settings_def intro: P)
  qed
qed

lemma keyed_validate_one_image:
  assumes "validate_one_image env strict st md n im = Inr (ok, st')" "keyed st"
  shows "keyed st'"
  using assms
  by (auto simp: validate_one_image_def fail_def Let_def keyed_simps
           split: option.splits if_splits
           intro: keyed_validate_image_settings[OF _ keyed_add_warning] keyed_validate_image_settings)

lemma keyed_validate_image_list:
  "validate_image_list env strict st md l = Inr (ok, st') \<Longrightarrow> keyed st \<Longrightarrow> keyed st'"
proof (induction l arbitrary: st)
  case Nil
  then show ?case by simp
next
  case (Cons x xs)
  obtain n im where x: "x = (n, im)" by (cases x)
  from Cons.prems(1) x obtain b st1 where
    c: "validate_one_image env strict st md n im = Inr (b, st1)"
    and r: "(if b then validate_image_list env strict st1 md xs else Inr (False, st1)) = Inr (ok, st')"
    by (auto split: sum.splits bool.splits)
  from keyed_validate_one_image[OF c Cons.prems(2)] have "keyed st1" .
  with r Cons.IH[of st1] show ?case by (auto split: if_splits)
qed

lemma keyed_validate_images:
  "validate_images env strict st md = Inr (ok, st') \<Longrightarrow> keyed st \<Longrightarrow> keyed st'"
  by (auto simp: validate_images_def fail_def keyed_simps split: if_splits
           dest: keyed_validate_image_list)

lemma keyed_check_untagged_exist:
  "check_untagged_exist env st base l = Inr (ok, st') \<Longrightarrow> keyed st \<Longrightarrow> keyed st'"
  by (induction l arbitrary: st) (auto simp: fail_def keyed_simps split: if_splits)

lemma keyed_validate_untagged:
  assumes "validate_untagged env strict st md = Inr (ok, st')" "keyed st"
  shows "keyed st'"
proof (cases "length (untagged md) \<noteq> card (set (untagged md))")
  case True
  with assms show ?thesis by (auto simp: validate_untagged_def fail_def keyed_simps)
next
  case False
  with assms(1) obtain ct0 cts info b s1 where
    "content_types md = ct0 # cts" "map_of (struct md) ct0 = Some info"
    and c: "check_untagged_exist env st (butlast (path info)) (untagged md) = Inr (b, s1)"
    and r: "(if \<not> b then Inr (False, s1)
             else if strict \<and> untagged md \<noteq> []
             then fail s1 (Msg ''Strict mode: Untagged images not allowed'' [L (sort (untagged md))])
             else if untagged md \<noteq> []
             then Inr (True, add_warning s1 (Msg ''Found untagged images''
                          [T ''Found '', I (int (length (untagged md))),
                           T '' untagged images: '', L (sort (untagged md))]) None)
             else Inr (True, s1)) = Inr (ok, st')"
    by (auto simp: validate_untagged_def split: list.splits option.splits sum.splits bool.splits if_splits)
  from keyed_check_untagged_exist[OF c assms(2)] have "keyed s1" .
  with r show ?thesis by (auto simp: fail_def keyed_simps split: if_splits)
qed

lemma keyed_check_groups:
  "check_groups env st md ct seen l = (ok, st') \<Longrightarrow> keyed st \<Longrightarrow> keyed st'"
proof (induction l arbitrary: st seen)
  case Nil
  then show ?case by simp
next
  case (Cons x xs)
  obtain k v where x: "x = (k, v)" by (cases x)
  show ?case
  proof (cases v)
    case None
    with Cons.prems x Cons.IH show ?thesis
      by (auto simp: keyed_simps split: if_splits)
  next
    case (Some s)
    obtain b s1 where cb: "check_blob env st ''group settings'' [ct, k] s = (b, s1)" by force
    from keyed_check_blob[OF cb Cons.prems(2)] have "keyed s1" .
    with Cons.prems x Some cb Cons.IH[of s1] Cons.IH[of st] show ?thesis
      by (cases b) (auto simp: keyed_simps split: if_splits)
  qed
qed

lemma keyed_validate_settings_list:
  "validate_settings_list env st md l = (ok, st') \<Longrightarrow> keyed st \<Longrightarrow> keyed st'"
proof (induction l arbitrary: st)
  case Nil
  then show ?case by simp
next
  case (Cons x xs)
  obtain ct g where x: "x = (ct, g)" by (cases x)
  show ?case
  proof (cases "ct \<in> set (content_types md) \<and> map_of g ''content'' \<noteq> None")
    case False
    with Cons.prems x show ?thesis by (auto simp: keyed_simps split: if_splits option.splits)
  next
    case True
    then obtain c where c: "map_of g ''content'' = Some c" by auto
    obtain b1 s1 where b1: "(case c of None \<Rightarrow> (True, st) | Some s \<Rightarrow> check_blob env st ''content settings of type'' [ct] s) = (b1, s1)"
      by force
    from b1 Cons.prems(2) have k1: "keyed s1"
      by (auto split: option.splits dest: keyed_check_blob)
    obtain b2 s2 where b2: "check_groups env s1 md ct {} g = (b2, s2)" by force
    from keyed_check_groups[OF b2 k1] have k2: "keyed s2" .
    from Cons.prems(1) x True c b1 b2 k1 k2 Cons.IH[of s2] show ?thesis
      by (cases b1; cases b2) auto
  qed
qed

lemma keyed_validate_settings:
  "validate_settings env st md = Inr (ok, st') \<Longrightarrow> keyed st \<Longrightarrow> keyed st'"
  by (auto simp: validate_settings_def dest: keyed_validate_settings_list)

lemma keyed_recount_products:
  "recount_products counts allc ct st qs = (qs', st') \<Longrightarrow> keyed st \<Longrightarrow> keyed st'"
proof (induction qs arbitrary: st qs')
  case Nil
  then show ?case by simp
next
  case (Cons q qs)
  define st1 where "st1 =
    (if (case current_count q of None \<Rightarrow> 0 | Some c \<Rightarrow> c) \<noteq> tally_get counts (name q) + allc
     then add_warning st (Msg ''Incorrect count''
            [T ''Incorrect count for '', S ct, T ''/'', S (name q), T '': metadata shows '',
             I (case current_count q of None \<Rightarrow> 0 | Some c \<Rightarrow> c),
             T '' but found '', I (tally_get counts (name q) + allc), T '' images'']) None
     else st)"
  from Cons.prems(2) have k: "keyed st1" by (simp add: st1_def keyed_simps)
  from Cons.prems(1) obtain r where "recount_products counts allc ct st1 qs = (r, st')"
    by (auto simp: Let_def st1_def split: prod.splits)
  from Cons.IH[OF this k] show ?case .
qed

lemma keyed_recount:
  "recount pc md st l = (l', st') \<Longrightarrow> keyed st \<Longrightarrow> keyed st'"
proof (induction l arbitrary: st l')
  case Nil
  then show ?case by simp
next
  case (Cons x xs)
  obtain ct prods where x: "x = (ct, prods)" by (cases x)
  from Cons.prems(1) x obtain p1 s1 r where
    a: "recount_products (case map_of pc ct of None \<Rightarrow> [] | Some m \<Rightarrow> m) (all_images_count md ct) ct st prods = (p1, s1)"
    and b: "recount pc md s1 xs = (r, st')"
    by (auto split: prod.splits)
  from keyed_recount_products[OF a Cons.prems(2)] have "keyed s1" .
  from Cons.IH[OF b this] show ?case .
qed

lemma keyed_validate_product_counts:
  "validate_product_counts st md = Inr (ok, st', md') \<Longrightarrow> keyed st \<Longrightarrow> keyed st'"
  by (auto simp: validate_product_counts_def split: sum.splits prod.splits dest: keyed_recount)

lemma keyed_keep_store:
  assumes "\<And>s m b s'. v s m = Inr (b, s') \<Longrightarrow> keyed s \<Longrightarrow> keyed s'"
    and "keep_store v st md = Inr (ok, st', md')" "keyed st"
  shows "keyed st'"
  using assms(2,3) by (auto simp: keep_store_def split: sum.splits dest: assms(1))

lemma keyed_run_validators:
  assumes "\<forall>v \<in> set vs. \<forall>s m b s' m'. v s m = Inr (b, s', m') \<longrightarrow> keyed s \<longrightarrow> keyed s'"
    and "run_validators strict vs valid st md = Inr (ok, st', md')" "keyed st"
  shows "keyed st'"
  using assms
proof (induction vs arbitrary: valid st md)
  case Nil
  then show ?case by (auto simp: keyed_simps split: if_splits)
next
  case (Cons v vs)
  from Cons.prems(2) obtain b s1 m1 where v: "v st md = Inr (b, s1, m1)"
    by (auto split: sum.splits)
  have k1: "keyed s1" by (metis Cons.prems(1) Cons.prems(3) v list.set_intros(1))
  from Cons.prems(1) have rest: "\<forall>v \<in> set vs. \<forall>s m b s' m'. v s m = Inr (b, s', m') \<longrightarrow> keyed s \<longrightarrow> keyed s'"
    by simp
  from Cons.prems(2) v consider "st' = s1" | valid' where
    "run_validators strict vs valid' s1 m1 = Inr (ok, st', md')"
    by (auto split: if_splits)
  then show ?case
  proof cases
    case 1
    with k1 show ?thesis by simp
  next
    case 2
    from Cons.IH[OF rest 2 k1] show ?thesis .
  qed
qed

lemma keyed_validate:
  assumes "validate env strict st0 md cts prods = Inr (ok, st, md')"
  shows "keyed st"
proof -
  have f: "keyed \<lparr>errors = [], warnings = [], seen_warnings = {}\<rparr>" by (simp add: keyed_def)
  show ?thesis
  proof (cases "keys md = REQUIRED_KEYS_ORDER")
    case False
    with assms f show ?thesis by (auto simp: validate_def keyed_simps)
  next
    case True
    with assms have r: "run_validators strict (validators env strict cts prods) True
       \<lparr>errors = [], warnings = [], seen_warnings = {}\<rparr> md = Inr (ok, st, md')"
      by (simp add: validate_def)
    have "\<forall>v \<in> set (validators env strict cts prods).
            \<forall>s m b s' m'. v s m = Inr (b, s', m') \<longrightarrow> keyed s \<longrightarrow> keyed s'"
      unfolding validators_def
      by (auto elim!: keyed_keep_store[rotated]
               dest: keyed_content_types keyed_validate_products keyed_validate_structure
                     keyed_validate_images keyed_validate_untagged keyed_validate_settings
                     keyed_validate_product_counts)
    from keyed_run_validators[OF this r f] show ?thesis .
  qed
qed

text \<open>
  The store a call of \<open>validate\<close> leaves is the store it was given or that store with
  the counts recomputed; when the stored counts are already the recomputed ones, the
  call leaves the store as it was.
\<close>

lemma run_validators_store:
  assumes "\<forall>v \<in> set vs. \<forall>s m b s' m'. v s m = Inr (b, s', m') \<longrightarrow> m' = m"
    and "run_validators strict (vs @ [w]) valid st md = Inr (ok, st', md')"
  shows "md' = md \<or> (\<exists>st1 st2 b. w st1 md = Inr (b, st2, md'))"
  using assms
proof (induction vs arbitrary: valid st)
  case Nil
  from Nil(2) obtain b st2 where "w st md = Inr (b, st2, md')"
    by (auto split: sum.splits if_splits)
  then show ?case by blast
next
  case (Cons v vs)
  from Cons.prems(2) obtain b s1 m1 where v: "v st md = Inr (b, s1, m1)"
    by (auto split: sum.splits)
  have m1: "m1 = md" by (metis Cons.prems(1) v list.set_intros(1))
  from Cons.prems(1) have rest: "\<forall>v \<in> set vs. \<forall>s m b s' m'. v s m = Inr (b, s', m') \<longrightarrow> m' = m"
    by simp
  from Cons.prems(2) v m1 consider "md' = md" | valid' where
    "run_validators strict (vs @ [w]) valid' s1 md = Inr (ok, st', md')"
    by (auto split: if_splits)
  then show ?case
  proof cases
    case 1
    then show ?thesis by simp
  next
    case 2
    from Cons.IH[OF rest 2] show ?thesis .
  qed
qed

lemma validate_store:
  assumes "validate env strict st0 md cts prods = Inr (ok, st, md')"
  shows "md' = md \<or> md' = md\<lparr>products :=
           map (\<lambda>(ct, ps). (ct, map (\<lambda>q. q\<lparr>current_count := Some (counted md ct (name q))\<rparr>) ps))
             (products md)\<rparr>"
proof (cases "keys md = REQUIRED_KEYS_ORDER")
  case False
  with assms show ?thesis by (auto simp: validate_def)
next
  case True
  let ?vs = "[keep_store (\<lambda>st md. validate_content_types st md cts),
      keep_store (\<lambda>st md. validate_products env strict st md prods),
      keep_store (validate_structure env),
      keep_store (validate_images env strict),
      keep_store (validate_untagged env strict),
      keep_store (validate_settings env)]"
  from True assms have
    "run_validators strict (?vs @ [validate_product_counts]) True
       \<lparr>errors = [], warnings = [], seen_warnings = {}\<rparr> md = Inr (ok, st, md')"
    by (simp add: validate_def validators_def)
  moreover have "\<forall>v \<in> set ?vs. \<forall>s m b s' m'. v s m = Inr (b, s', m') \<longrightarrow> m' = m"
    by (auto dest: keep_store_same)
  ultimately have "md' = md \<or> (\<exists>st1 st2 b. validate_product_counts st1 md = Inr (b, st2, md'))"
    by (rule run_validators_store[rotated])
  then show ?thesis by (auto dest: validate_product_counts_result)
qed

lemma validate_keeps_store_with_right_counts:
  assumes "validate env strict st0 md cts prods = Inr (ok, st, md')"
    and "\<forall>(ct, ps) \<in> set (products md). \<forall>q \<in> set ps. current_count q = Some (counted md ct (name q))"
  shows "md' = md"
proof -
  have "map (\<lambda>(ct, ps). (ct, map (\<lambda>q. q\<lparr>current_count := Some (counted md ct (name q))\<rparr>) ps))
          (products md) = products md"
    using assms(2) by (intro map_idI) (auto intro!: map_idI)
  with validate_store[OF assms(1)] show ?thesis by auto
qed

section \<open>Validator: a second call on the store the first call left\<close>

text \<open>
  The six validators that run before the counts are recomputed read the names, the
  duplicate-prevention flags and the minimum occurrences of the products, never their
  counts: on a store that differs in the counts only they return what they return on
  the store itself.
\<close>

lemma with_counts_fields:
  "keys (with_counts f md) = keys md" "content_types (with_counts f md) = content_types md"
  "struct (with_counts f md) = struct md" "images (with_counts f md) = images md"
  "untagged (with_counts f md) = untagged md" "settings (with_counts f md) = settings md"
  by (simp_all add: with_counts_def)

lemma map_of_map_keyed:
  "map_of (map (\<lambda>(k, v). (k, g k v)) l) k = map_option (g k) (map_of l k)"
  by (induction l) auto

lemma map_of_with_counts:
  "map_of (products (with_counts f md)) ct =
     map_option (map (\<lambda>q. q\<lparr>current_count := f ct q\<rparr>)) (map_of (products md) ct)"
  by (simp add: with_counts_def map_of_map_keyed)

lemma names_with_counts: "map name (map (\<lambda>q. q\<lparr>current_count := f q\<rparr>) ps) = map name ps"
  by simp

lemma empty_tally_with_counts: "empty_tally (with_counts f md) = empty_tally md"
  by (simp add: empty_tally_def with_counts_def split_beta)

lemma cong_check_product_names:
  "check_product_names st ct e (map (\<lambda>q. q\<lparr>current_count := f q\<rparr>) qs) = check_product_names st ct e qs"
  by (induction qs arbitrary: st) simp_all

lemma cong_check_products:
  "check_products st e (map (\<lambda>(ct, ps). (ct, map (\<lambda>q. q\<lparr>current_count := f ct q\<rparr>) ps)) l)
     = check_products st e l"
proof (induction l arbitrary: st)
  case Nil
  then show ?case by simp
next
  case (Cons x xs)
  obtain ct ps where x: "x = (ct, ps)" by (cases x)
  show ?case
    by (simp add: x cong_check_product_names Cons.IH comp_def
             cong: option.case_cong sum.case_cong bool.case_cong prod.case_cong if_cong)
qed

lemma cong_products_image_pass:
  "products_image_pass strict (with_counts f md) pc st l = products_image_pass strict md pc st l"
proof (induction l arbitrary: pc st)
  case Nil
  then show ?case by simp
next
  case (Cons x xs)
  obtain n im where x: "x = (n, im)" by (cases x)
  show ?case
    by (cases "map_of (products md) (content_type im)")
       (simp_all add: x Cons.IH map_of_with_counts comp_def Let_def cong: sum.case_cong)
qed

lemma cong_check_min_prods:
  "check_min_prods strict counts ct st (map (\<lambda>q. q\<lparr>current_count := f q\<rparr>) qs)
     = check_min_prods strict counts ct st qs"
proof -
  have t: "check_min_prods True counts ct s (map (\<lambda>q. q\<lparr>current_count := f q\<rparr>) qs)
             = check_min_prods True counts ct s qs" for s
    by (induction qs arbitrary: s) (simp_all add: Let_def)
  have e: "check_min_prods False counts ct s (map (\<lambda>q. q\<lparr>current_count := f q\<rparr>) qs)
             = check_min_prods False counts ct s qs" for s
    by (induction qs arbitrary: s) (simp_all add: Let_def)
  show ?thesis by (cases strict) (simp_all add: t e)
qed

lemma cong_check_min:
  "check_min strict pc st (map (\<lambda>(ct, ps). (ct, map (\<lambda>q. q\<lparr>current_count := f ct q\<rparr>) ps)) l)
     = check_min strict pc st l"
proof (induction l arbitrary: st)
  case Nil
  then show ?case by simp
next
  case (Cons x xs)
  obtain ct ps where x: "x = (ct, ps)" by (cases x)
  show ?case
    by (simp add: x cong_check_min_prods Cons.IH
             cong: option.case_cong sum.case_cong bool.case_cong prod.case_cong)
qed

lemma cong_validate_products:
  "validate_products env strict st (with_counts f md) e = validate_products env strict st md e"
proof -
  have p: "products (with_counts f md) =
             map (\<lambda>(ct, ps). (ct, map (\<lambda>q. q\<lparr>current_count := f ct q\<rparr>) ps)) (products md)"
    by (simp add: with_counts_def)
  have k: "map fst (products (with_counts f md)) = map fst (products md)"
    by (simp add: with_counts_def split_beta comp_def)
  show ?thesis
    unfolding validate_products_def k empty_tally_with_counts cong_products_image_pass with_counts_fields
    by (simp add: p cong_check_products cong_check_min
             cong: option.case_cong sum.case_cong bool.case_cong prod.case_cong)
qed

lemma cong_validate_image_product:
  "validate_image_product strict st (with_counts f md) n im = validate_image_product strict st md n im"
  by (cases "map_of (products md) (content_type im)"; cases "product im")
     (simp_all add: validate_image_product_def map_of_with_counts comp_def)

lemma cong_validate_image_settings:
  "validate_image_settings env strict st (with_counts f md) n im
     = validate_image_settings env strict st md n im"
  by (simp add: validate_image_settings_def cong_validate_image_product with_counts_fields
           cong: option.case_cong sum.case_cong bool.case_cong prod.case_cong if_cong)

lemma cong_validate_one_image:
  "validate_one_image env strict st (with_counts f md) n im = validate_one_image env strict st md n im"
  by (simp add: validate_one_image_def cong_validate_image_settings with_counts_fields
           cong: option.case_cong if_cong)

lemma cong_validate_image_list:
  "validate_image_list env strict st (with_counts f md) l = validate_image_list env strict st md l"
proof (induction l arbitrary: st)
  case Nil
  then show ?case by simp
next
  case (Cons x xs)
  obtain n im where x: "x = (n, im)" by (cases x)
  show ?case
    by (simp add: x cong_validate_one_image Cons.IH
             cong: sum.case_cong bool.case_cong prod.case_cong)
qed

lemma cong_validate_images:
  "validate_images env strict st (with_counts f md) = validate_images env strict st md"
  by (simp add: validate_images_def cong_validate_image_list with_counts_fields)

lemma cong_check_groups:
  "check_groups env st (with_counts f md) ct seen l = check_groups env st md ct seen l"
proof (induction l arbitrary: st seen)
  case Nil
  then show ?case by simp
next
  case (Cons x xs)
  obtain k v where x: "x = (k, v)" by (cases x)
  show ?case
    by (cases "map_of (products md) ct")
       (simp_all add: x Cons.IH map_of_with_counts comp_def image_image
             cong: option.case_cong bool.case_cong prod.case_cong)
qed

lemma cong_validate_settings_list:
  "validate_settings_list env st (with_counts f md) l = validate_settings_list env st md l"
proof (induction l arbitrary: st)
  case Nil
  then show ?case by simp
next
  case (Cons x xs)
  obtain ct g where x: "x = (ct, g)" by (cases x)
  show ?case
    by (simp add: x cong_check_groups Cons.IH with_counts_fields
             cong: option.case_cong bool.case_cong prod.case_cong)
qed

lemma cong_validate_settings:
  "validate_settings env st (with_counts f md) = validate_settings env st md"
  by (simp add: validate_settings_def cong_validate_settings_list with_counts_fields)

lemma cong_validate_structure:
  "validate_structure env st (with_counts f md) = validate_structure env st md"
  by (simp add: validate_structure_def with_counts_fields)

lemma cong_validate_untagged:
  "validate_untagged env strict st (with_counts f md) = validate_untagged env strict st md"
  unfolding validate_untagged_def with_counts_fields by (rule refl)

lemma cong_validate_content_types:
  "validate_content_types st (with_counts f md) e = validate_content_types st md e"
  by (simp add: validate_content_types_def with_counts_fields)

text \<open>
  The last validator on a store whose counts are right: it warns about nothing and
  writes the counts that were stored, filling in the missing ones.
\<close>

lemma recount_products_quiet:
  "\<forall>q \<in> set qs. stored q = tally_get counts (name q) + allc \<Longrightarrow>
   snd (recount_products counts allc ct st qs) = st"
  by (induction qs arbitrary: st) (simp_all add: Let_def stored_def split_beta)

lemma recount_quiet:
  "\<forall>(ct, ps) \<in> set l. \<forall>q \<in> set ps. stored q = tally_lookup pc ct (name q) + all_images_count md ct \<Longrightarrow>
   snd (recount pc md st l) = st"
proof (induction l arbitrary: st)
  case Nil
  then show ?case by simp
next
  case (Cons x xs)
  obtain ct ps where x: "x = (ct, ps)" by (cases x)
  have g: "tally_get (case map_of pc ct of None \<Rightarrow> [] | Some m \<Rightarrow> m) n = tally_lookup pc ct n" for n
    by (simp add: tally_lookup_def tally_get_def split: option.splits)
  from Cons.prems x have
    "\<forall>q \<in> set ps. stored q =
        tally_get (case map_of pc ct of None \<Rightarrow> [] | Some m \<Rightarrow> m) (name q) + all_images_count md ct"
    by (simp add: g)
  then have a: "snd (recount_products (case map_of pc ct of None \<Rightarrow> [] | Some m \<Rightarrow> m)
                      (all_images_count md ct) ct st ps) = st"
    by (rule recount_products_quiet)
  from Cons.prems have "\<forall>(ct, ps) \<in> set xs. \<forall>q \<in> set ps.
       stored q = tally_lookup pc ct (name q) + all_images_count md ct"
    by simp
  from Cons.IH[OF this] a show ?case
    by (simp add: x split_beta)
qed

lemma counted_tally:
  assumes "count_pass (empty_tally md) (images md) = Inr pc"
  shows "tally_lookup pc c n + all_images_count md c = counted md c n"
  using count_pass_lookup[OF assms, of c n] split_count[of c n "images md"]
  by (simp add: tally_lookup_empty all_images_count_def counted_def)

lemma validate_product_counts_quiet:
  assumes "counts_right md" and "count_pass (empty_tally md) (images md) = Inr pc"
  shows "validate_product_counts st md = Inr (True, st, recounted md)"
proof -
  obtain l st' where r: "recount pc md st (products md) = (l, st')" by force
  from assms(1) have "\<forall>(ct, ps) \<in> set (products md). \<forall>q \<in> set ps.
       stored q = tally_lookup pc ct (name q) + all_images_count md ct"
    by (simp add: counts_right_def counted_tally[OF assms(2)])
  from recount_quiet[OF this, of st] r have st': "st' = st" by simp
  have v: "validate_product_counts st md = Inr (True, st', md\<lparr>products := l\<rparr>)"
    by (simp add: validate_product_counts_def assms(2) r)
  from validate_product_counts_result[OF v] have "md\<lparr>products := l\<rparr> = recounted md"
    by (simp add: recounted_def with_counts_def)
  with v st' show ?thesis by simp
qed

lemma counted_with_counts: "counted (with_counts f md) ct n = counted md ct n"
  by (simp add: counted_def with_counts_fields)

lemma counted_recounted: "counted (recounted md) ct n = counted md ct n"
  by (simp add: recounted_def counted_with_counts)

lemma counts_right_recounted: "counts_right (recounted md)"
  unfolding counts_right_def counted_recounted
  by (auto simp: recounted_def with_counts_def stored_def)

lemma recounted_idem: "recounted (recounted md) = recounted md"
  by (simp add: recounted_def counted_with_counts) (simp add: with_counts_def split_beta comp_def)

lemma validate_product_counts_recounted:
  assumes "count_pass (empty_tally md) (images md) = Inr pc"
  shows "validate_product_counts st (recounted md) = Inr (True, st, recounted md)"
proof -
  have "count_pass (empty_tally (recounted md)) (images (recounted md)) = Inr pc"
    by (simp add: recounted_def empty_tally_with_counts with_counts_fields assms)
  from validate_product_counts_quiet[OF counts_right_recounted this, of st] show ?thesis
    by (simp add: recounted_idem)
qed

text \<open>
  A run of the validators on the store with its counts recomputed gives the verdict and
  the lists of the run on the store itself, when the counts of that store are right.
\<close>

lemma keep_store_cong:
  "\<forall>s. u s md1 = u s md \<Longrightarrow> \<exists>u'. keep_store u = keep_store u' \<and> (\<forall>s. u' s md1 = u' s md)"
  by blast

lemma run_validators_recounted:
  assumes "\<forall>v \<in> set vs. \<exists>u. v = keep_store u \<and> (\<forall>s. u s md1 = u s md)"
    and "\<forall>s. w s md = Inr (True, s, md1)" and "\<forall>s. w s md1 = Inr (True, s, md1)"
    and "run_validators strict (vs @ [w]) valid st md = Inr (ok, st', mdr)"
  shows "run_validators strict (vs @ [w]) valid st md1 = Inr (ok, st', md1)"
  using assms
proof (induction vs arbitrary: valid st)
  case Nil
  then show ?case by (auto split: if_splits)
next
  case (Cons v vs)
  from Cons.prems(1) obtain u where v: "v = keep_store u" and u: "\<forall>s. u s md1 = u s md"
    by auto
  from Cons.prems(4) v obtain b s1 where b: "u st md = Inr (b, s1)"
    by (auto simp: keep_store_def split: sum.splits)
  from b u have b1: "u st md1 = Inr (b, s1)" by simp
  from Cons.prems(1) have rest: "\<forall>v \<in> set vs. \<exists>u. v = keep_store u \<and> (\<forall>s. u s md1 = u s md)"
    by simp
  show ?case
  proof (cases "\<not> b \<and> strict")
    case True
    with Cons.prems(4) v b b1 show ?thesis by (auto simp: keep_store_def)
  next
    case False
    with Cons.prems(4) v b have
      "run_validators strict (vs @ [w]) (if b then valid else False) s1 md = Inr (ok, st', mdr)"
      by (auto simp: keep_store_def split: if_splits)
    from Cons.IH[OF rest Cons.prems(2) Cons.prems(3) this] False v b1 show ?thesis
      by (auto simp: keep_store_def)
  qed
qed

lemma validate_recounted:
  assumes "counts_right md"
    and "validate env strict st0 md cts prods = Inr (ok, st, recounted md)"
    and "recounted md \<noteq> md"
  shows "validate env strict st1 (recounted md) cts prods = Inr (ok, st, recounted md)"
proof -
  let ?us = "[keep_store (\<lambda>st md. validate_content_types st md cts),
      keep_store (\<lambda>st md. validate_products env strict st md prods),
      keep_store (validate_structure env),
      keep_store (validate_images env strict),
      keep_store (validate_untagged env strict),
      keep_store (validate_settings env)]"
  let ?f = "\<lparr>errors = [], warnings = [], seen_warnings = {}\<rparr>"
  from assms(2,3) have k: "keys md = REQUIRED_KEYS_ORDER"
    by (auto simp: validate_def Let_def split: if_splits)
  with assms(2) have r:
    "run_validators strict (?us @ [validate_product_counts]) True ?f md = Inr (ok, st, recounted md)"
    by (simp add: validate_def validators_def)
  have same: "\<forall>v \<in> set ?us. \<forall>s m b s' m'. v s m = Inr (b, s', m') \<longrightarrow> m' = m"
    by (auto dest: keep_store_same)
  from run_validators_store[OF same r] assms(3) obtain s1 s2 b where
    "validate_product_counts s1 md = Inr (b, s2, recounted md)"
    by auto
  then obtain pc where pc: "count_pass (empty_tally md) (images md) = Inr pc"
    by (auto simp: validate_product_counts_def split: sum.splits)
  have c: "\<forall>v \<in> set ?us. \<exists>u. v = keep_store u \<and> (\<forall>s. u s (recounted md) = u s md)"
    by (auto intro!: keep_store_cong
             simp: recounted_def cong_validate_content_types cong_validate_products
               cong_validate_structure cong_validate_images cong_validate_untagged
               cong_validate_settings)
  have w0: "\<forall>s. validate_product_counts s md = Inr (True, s, recounted md)"
    using validate_product_counts_quiet[OF assms(1) pc] by simp
  have w1: "\<forall>s. validate_product_counts s (recounted md) = Inr (True, s, recounted md)"
    using validate_product_counts_recounted[OF pc] by simp
  from run_validators_recounted[OF c w0 w1 r]
  have "run_validators strict (?us @ [validate_product_counts]) True ?f (recounted md)
          = Inr (ok, st, recounted md)" .
  moreover have "keys (recounted md) = REQUIRED_KEYS_ORDER"
    by (simp add: recounted_def with_counts_fields k)
  ultimately show ?thesis by (simp add: validate_def validators_def)
qed


text \<open>
  C5. A store is already valid when the count stored for every product is the number of
  images that count for it, a missing count being read as 0 as the validator reads it
  (\<open>counts_right\<close>). Let \<open>validate\<close> return on such a store, with any verdict, and
  let \<open>md1\<close> be the store as the call leaves it: the store itself, or the store with
  the same counts written out. Then a second call on \<open>md1\<close>, started from the lists the
  first call left, returns the same verdict, the same errors and the same warnings, and
  leaves \<open>md1\<close> as it is; so does a call started from any other lists, since the lists
  are emptied first, and so does a call on the store as it was before the first call.
  The warnings returned have one key each, as many keys as warnings, and a second
  warning under an explicit key already seen is dropped, whatever its text.
\<close>

theorem validate_twice_same_warnings:
  assumes "counts_right md"
    and "validate env strict st0 md cts prods = Inr (ok, st, md1)"
  shows "validate env strict st md1 cts prods = Inr (ok, st, md1)
       \<and> (\<forall>st1. validate env strict st1 md1 cts prods = Inr (ok, st, md1))
       \<and> (\<forall>st1. validate env strict st1 md cts prods = Inr (ok, st, md1))
       \<and> (md1 = md \<or> md1 = recounted md)
       \<and> finite (seen_warnings st) \<and> card (seen_warnings st) = length (warnings st)
       \<and> (\<forall>s m1 m2 k. add_warning (add_warning s m1 (Some k)) m2 (Some k) = add_warning s m1 (Some k))"
proof -
  from validate_store[OF assms(2)] have m: "md1 = md \<or> md1 = recounted md"
    by (simp add: recounted_def with_counts_def)
  have o: "validate env strict st1 md cts prods = Inr (ok, st, md1)" for st1
  proof -
    have "validate env strict st1 md cts prods = validate env strict st0 md cts prods"
      by (simp add: validate_def)
    with assms(2) show ?thesis by simp
  qed
  have r: "validate env strict st1 md1 cts prods = Inr (ok, st, md1)" for st1
  proof (cases "md1 = md")
    case True
    with o show ?thesis by simp
  next
    case False
    with m have e: "md1 = recounted md" by simp
    from validate_recounted[OF assms(1) assms(2)[unfolded e]] False e show ?thesis by simp
  qed
  from keyed_validate[OF assms(2)] have "finite (seen_warnings st) \<and> card (seen_warnings st) = length (warnings st)"
    by (simp add: keyed_def)
  moreover have "add_warning (add_warning s m1 (Some k)) m2 (Some k) = add_warning s m1 (Some k)" for s m1 m2 k
    by (simp add: add_warning_def Let_def)
  ultimately show ?thesis using r o m by simp
qed

lemma uncounted_store_counts_right: "counts_right uncounted_store"
  by code_simp

lemma uncounted_store_validates:
  "validate env_ok False fresh uncounted_store [''hook'', ''cta''] demo_expected
     = Inr (True,
            \<lparr>errors = [],
             warnings = [Msg ''Image has no product assigned'' [S ''c.png'', L [''mag'', ''zinc'']]],
             seen_warnings = {''missing_product_c.png''}\<rparr>,
            demo_store)"
  by code_simp

theorem validate_twice_same_warnings_witness:
  "counts_right uncounted_store
   \<and> validate env_ok False fresh uncounted_store [''hook'', ''cta''] demo_expected
     = Inr (True,
            \<lparr>errors = [],
             warnings = [Msg ''Image has no product assigned'' [S ''c.png'', L [''mag'', ''zinc'']]],
             seen_warnings = {''missing_product_c.png''}\<rparr>,
            demo_store)
   \<and> validate env_ok False
        \<lparr>errors = [],
         warnings = [Msg ''Image has no product assigned'' [S ''c.png'', L [''mag'', ''zinc'']]],
         seen_warnings = {''missing_product_c.png''}\<rparr>
        demo_store [''hook'', ''cta''] demo_expected
     = Inr (True,
            \<lparr>errors = [],
             warnings = [Msg ''Image has no product assigned'' [S ''c.png'', L [''mag'', ''zinc'']]],
             seen_warnings = {''missing_product_c.png''}\<rparr>,
            demo_store)"
  using validate_twice_same_warnings[OF uncounted_store_counts_right uncounted_store_validates]
        uncounted_store_counts_right uncounted_store_validates
  by simp

text \<open>
  A store whose stored counts are stale is not in that state yet. The first call
  rewrites the counts and, in non-strict mode, warns about each one it rewrote (the two
  warnings of the stale example above); the store it leaves has its counts right, and
  the next call on it has nothing left to report.
\<close>

lemma stale_store_counts_not_right: "\<not> counts_right stale_store"
  by code_simp

lemma stale_store_second_call:
  "validate env_ok False fresh (recounted stale_store) [''hook'', ''cta''] demo_expected
     = Inr (True, \<lparr>errors = [], warnings = [], seen_warnings = {}\<rparr>, recounted stale_store)"
  by code_simp

end
